theory Spec2Isabelle
  imports Main "HOL-Library.Sublist" "HOL-Library.AList"
begin

section \<open>Host numbers\<close>

text \<open>
  The optimizer and the code generator use the host's numbers (JavaScript doubles) only
  through a handful of operations: \<open>parseFloat\<close>, \<open>toString\<close>, the five arithmetic
  operators and strict comparison with the constants 0 and 1. The model takes these
  operations as a parameter, so every theorem holds for whatever the host computes.
\<close>

record 'n host =
  parseFloat :: "string \<Rightarrow> 'n"
  toString :: "'n \<Rightarrow> string"
  num_add :: "'n \<Rightarrow> 'n \<Rightarrow> 'n"
  num_sub :: "'n \<Rightarrow> 'n \<Rightarrow> 'n"
  num_mul :: "'n \<Rightarrow> 'n \<Rightarrow> 'n"
  num_div :: "'n \<Rightarrow> 'n \<Rightarrow> 'n"
  num_mod :: "'n \<Rightarrow> 'n \<Rightarrow> 'n"
  strict_eq :: "'n \<Rightarrow> 'n \<Rightarrow> bool"
  zero :: "'n"
  one :: "'n"

section \<open>Tree model\<close>

text \<open>
  A node is the object the optimizer and the generator read: a \<open>type\<close> tag, the optional
  source position (\<open>line\<close> and \<open>column\<close>, present together or not at all) and the fields
  of its kind, in the key order in which the nodes are built (\<open>operator, left, right\<close>;
  \<open>test, consequent, alternate\<close>; ...). The kinds are those the two components dispatch
  on, with the fields they read: a \<open>VariableDeclaration\<close> has \<open>declarations\<close>, each
  \<open>{id: {name}, init}\<close>, modelled as the pair of the name and the initializer; a \<open>Literal\<close>
  has a \<open>value\<close> that is a number, a string, a boolean or \<open>null\<close>; a \<open>NumericLiteral\<close> has its
  text as \<open>value\<close>. Fields the code guards against being absent (\<open>init\<close>, \<open>alternate\<close>) are
  options. \<open>Other\<close> stands for every kind with a tag that is none of these (CallExpression,
  ReturnStatement, ...), with its child nodes in key order.
  \<open>JSON.parse(JSON.stringify(node))\<close>, the deep copy the passes make, is the identity on
  these values.
\<close>

type_synonym pos = "(nat \<times> nat) option"

datatype 'n litval = LNumber 'n | LString string | LBoolean bool | LNull

datatype 'n node =
    Program pos "'n node list"
  | VariableDeclaration pos "(string \<times> 'n node option) list"
  | AssignmentExpression pos "'n node" "'n node"
  | BinaryExpression pos string "'n node" "'n node"
  | UnaryExpression pos string "'n node"
  | Literal pos "'n litval"
  | NumericLiteral pos string
  | Identifier pos string
  | IfStatement pos "'n node" "'n node" "'n node option"
  | WhileStatement pos "'n node" "'n node"
  | BlockStatement pos "'n node list"
  | ExpressionStatement pos "'n node"
  | PrintStatement pos "'n node"
  | Other pos string "'n node list"

fun node_type :: "'n node \<Rightarrow> string" where
  "node_type (Program p body) = ''Program''"
| "node_type (VariableDeclaration p ds) = ''VariableDeclaration''"
| "node_type (AssignmentExpression p l r) = ''AssignmentExpression''"
| "node_type (BinaryExpression p operator l r) = ''BinaryExpression''"
| "node_type (UnaryExpression p operator a) = ''UnaryExpression''"
| "node_type (Literal p v) = ''Literal''"
| "node_type (NumericLiteral p v) = ''NumericLiteral''"
| "node_type (Identifier p name) = ''Identifier''"
| "node_type (IfStatement p t c a) = ''IfStatement''"
| "node_type (WhileStatement p t b) = ''WhileStatement''"
| "node_type (BlockStatement p body) = ''BlockStatement''"
| "node_type (ExpressionStatement p e) = ''ExpressionStatement''"
| "node_type (PrintStatement p e) = ''PrintStatement''"
| "node_type (Other p tag cs) = tag"

fun node_pos :: "'n node \<Rightarrow> pos" where
  "node_pos (Program p body) = p"
| "node_pos (VariableDeclaration p ds) = p"
| "node_pos (AssignmentExpression p l r) = p"
| "node_pos (BinaryExpression p operator l r) = p"
| "node_pos (UnaryExpression p operator a) = p"
| "node_pos (Literal p v) = p"
| "node_pos (NumericLiteral p v) = p"
| "node_pos (Identifier p name) = p"
| "node_pos (IfStatement p t c a) = p"
| "node_pos (WhileStatement p t b) = p"
| "node_pos (BlockStatement p body) = p"
| "node_pos (ExpressionStatement p e) = p"
| "node_pos (PrintStatement p e) = p"
| "node_pos (Other p tag cs) = p"

subsection \<open>Visiting the children of a node\<close>

text \<open>
  \<open>array.map(child => f(child, result))\<close>: the children are visited left to right and
  every call sees the state the previous one left.
\<close>

fun mapS :: "('a \<Rightarrow> 's \<Rightarrow> 'b \<times> 's) \<Rightarrow> 'a list \<Rightarrow> 's \<Rightarrow> 'b list \<times> 's" where
  "mapS f [] s = ([], s)"
| "mapS f (x # xs) s =
     (case f x s of (y, s1) \<Rightarrow> (case mapS f xs s1 of (ys, s2) \<Rightarrow> (y # ys, s2)))"

fun optS :: "('a \<Rightarrow> 's \<Rightarrow> 'b \<times> 's) \<Rightarrow> 'a option \<Rightarrow> 's \<Rightarrow> 'b option \<times> 's" where
  "optS f None s = (None, s)"
| "optS f (Some x) s = (case f x s of (y, s1) \<Rightarrow> (Some y, s1))"

fun declS :: "('a \<Rightarrow> 's \<Rightarrow> 'b \<times> 's) \<Rightarrow> string \<times> 'a option \<Rightarrow> 's
    \<Rightarrow> (string \<times> 'b option) \<times> 's" where
  "declS f (name, init) s = (case optS f init s of (init', s1) \<Rightarrow> ((name, init'), s1))"

text \<open>
  The loop \<open>Object.keys(node).forEach(key => ...)\<close> shared by the rewrite passes: every
  array-valued field is mapped, every object-valued field is replaced by the result of
  the recursive call, strings, numbers and \<open>null\<close> are left alone. A declarator is such an
  object, with the fields \<open>id\<close> and \<open>init\<close>; its \<open>id\<close> is an identifier, which every pass
  returns as it is and without any effect, so the visit goes to the initializer only.
\<close>

fun each_child :: "('n node \<Rightarrow> 's \<Rightarrow> 'n node \<times> 's) \<Rightarrow> 'n node \<Rightarrow> 's \<Rightarrow> 'n node \<times> 's" where
  "each_child f (Program p body) s =
     (case mapS f body s of (body', s1) \<Rightarrow> (Program p body', s1))"
| "each_child f (VariableDeclaration p ds) s =
     (case mapS (declS f) ds s of (ds', s1) \<Rightarrow> (VariableDeclaration p ds', s1))"
| "each_child f (AssignmentExpression p l r) s =
     (case f l s of (l', s1) \<Rightarrow>
       (case f r s1 of (r', s2) \<Rightarrow> (AssignmentExpression p l' r', s2)))"
| "each_child f (BinaryExpression p operator l r) s =
     (case f l s of (l', s1) \<Rightarrow>
       (case f r s1 of (r', s2) \<Rightarrow> (BinaryExpression p operator l' r', s2)))"
| "each_child f (UnaryExpression p operator a) s =
     (case f a s of (a', s1) \<Rightarrow> (UnaryExpression p operator a', s1))"
| "each_child f (Literal p v) s = (Literal p v, s)"
| "each_child f (NumericLiteral p v) s = (NumericLiteral p v, s)"
| "each_child f (Identifier p name) s = (Identifier p name, s)"
| "each_child f (IfStatement p t c a) s =
     (case f t s of (t', s1) \<Rightarrow>
       (case f c s1 of (c', s2) \<Rightarrow>
         (case optS f a s2 of (a', s3) \<Rightarrow> (IfStatement p t' c' a', s3))))"
| "each_child f (WhileStatement p t b) s =
     (case f t s of (t', s1) \<Rightarrow>
       (case f b s1 of (b', s2) \<Rightarrow> (WhileStatement p t' b', s2)))"
| "each_child f (BlockStatement p body) s =
     (case mapS f body s of (body', s1) \<Rightarrow> (BlockStatement p body', s1))"
| "each_child f (ExpressionStatement p e) s =
     (case f e s of (e', s1) \<Rightarrow> (ExpressionStatement p e', s1))"
| "each_child f (PrintStatement p e) s =
     (case f e s of (e', s1) \<Rightarrow> (PrintStatement p e', s1))"
| "each_child f (Other p tag cs) s =
     (case mapS f cs s of (cs', s1) \<Rightarrow> (Other p tag cs', s1))"

fun child_nodes :: "'n node \<Rightarrow> 'n node list" where
  "child_nodes (Program p body) = body"
| "child_nodes (VariableDeclaration p ds) = concat (map (\<lambda>d. case snd d of None \<Rightarrow> [] | Some e \<Rightarrow> [e]) ds)"
| "child_nodes (AssignmentExpression p l r) = [l, r]"
| "child_nodes (BinaryExpression p operator l r) = [l, r]"
| "child_nodes (UnaryExpression p operator a) = [a]"
| "child_nodes (Literal p v) = []"
| "child_nodes (NumericLiteral p v) = []"
| "child_nodes (Identifier p name) = []"
| "child_nodes (IfStatement p t c a) = [t, c] @ (case a of None \<Rightarrow> [] | Some e \<Rightarrow> [e])"
| "child_nodes (WhileStatement p t b) = [t, b]"
| "child_nodes (BlockStatement p body) = body"
| "child_nodes (ExpressionStatement p e) = [e]"
| "child_nodes (PrintStatement p e) = [e]"
| "child_nodes (Other p tag cs) = cs"

lemma mapS_cong [fundef_cong]:
  "xs = ys \<Longrightarrow> s = t \<Longrightarrow> (\<And>x u. x \<in> set ys \<Longrightarrow> f x u = g x u) \<Longrightarrow> mapS f xs s = mapS g ys t"
proof (induction ys arbitrary: xs s t)
  case Nil
  then show ?case by simp
next
  case (Cons y ys)
  have "mapS f ys u = mapS g ys u" for u
    by (rule Cons.IH) (simp_all add: Cons.prems)
  then show ?case using Cons.prems by simp
qed

lemma optS_cong [fundef_cong]:
  "a = b \<Longrightarrow> s = t \<Longrightarrow> (\<And>x u. b = Some x \<Longrightarrow> f x u = g x u) \<Longrightarrow> optS f a s = optS g b t"
  by (cases b) simp_all

lemma declS_cong:
  "(\<And>x u. snd d = Some x \<Longrightarrow> f x u = g x u) \<Longrightarrow> declS f d s = declS g d s"
  by (cases d) (simp cong: optS_cong)

lemma each_child_cong [fundef_cong]:
  assumes "n = m" and "s = t"
    and "\<And>c u. c \<in> set (child_nodes m) \<Longrightarrow> f c u = g c u"
  shows "each_child f n s = each_child g m t"
proof -
  have eq: "each_child f m t = each_child g m t"
  proof (cases m)
    case (VariableDeclaration p ds)
    have "mapS (declS f) ds t = mapS (declS g) ds t"
    proof (rule mapS_cong [OF refl refl])
      fix d u assume d: "d \<in> set ds"
      show "declS f d u = declS g d u"
      proof (rule declS_cong)
        fix x v assume "snd d = Some x"
        with d have "x \<in> set (child_nodes m)"
          unfolding VariableDeclaration by force
        then show "f x v = g x v" by (rule assms(3))
      qed
    qed
    then show ?thesis unfolding VariableDeclaration by simp
  next
    case (IfStatement p c1 c2 a)
    have "optS f a u = optS g a u" for u
      by (rule optS_cong [OF refl refl]) (simp add: assms(3) IfStatement)
    then show ?thesis using assms(3) unfolding IfStatement by simp
  qed (use assms(3) in \<open>simp_all cong: mapS_cong\<close>)
  then show ?thesis using assms(1,2) by simp
qed

lemma size_child_nodes [termination_simp]:
  "c \<in> set (child_nodes n) \<Longrightarrow> size c < size n"
proof (cases n)
  case (Program p body)
  assume "c \<in> set (child_nodes n)"
  then show ?thesis unfolding Program by (auto dest: size_list_estimation' [where f = size])
next
  case (VariableDeclaration p ds)
  assume "c \<in> set (child_nodes n)"
  then obtain name where d: "(name, Some c) \<in> set ds"
    unfolding VariableDeclaration by (auto split: option.splits)
  have "size c < Suc (size_list (size_prod (\<lambda>_. 0) (size_option size)) ds)"
    using d by (induction ds) auto
  then show ?thesis unfolding VariableDeclaration by simp
next
  case (BlockStatement p body)
  assume "c \<in> set (child_nodes n)"
  then show ?thesis unfolding BlockStatement by (auto dest: size_list_estimation' [where f = size])
next
  case (Other p tag cs)
  assume "c \<in> set (child_nodes n)"
  then show ?thesis unfolding Other by (auto dest: size_list_estimation' [where f = size])
qed (auto split: option.splits)

section \<open>Optimization outcome\<close>

text \<open>
  \<open>OptimizationResult\<close>: the log of applied rewrites, the per-category counters, warnings
  and errors. \<open>statistics\<close> holds the four counters addressed by \<open>statistics[type]\<close>,
  \<open>totalOptimizations\<close> the fifth. Time stamps and the elapsed time are readings of the
  clock and are left out.
  A log entry keeps what \<open>getNodeInfo\<close> extracts from the node: its type, and its line and
  column with 0 for an absent one.
\<close>

datatype category =
    constantFoldings
  | algebraicSimplifications
  | commonSubexpressionEliminations
  | deadCodeEliminations

record optimization =
  otype :: category
  description :: string
  node_info :: "string \<times> nat \<times> nat"

record 'n OptimizationResult =
  success :: bool
  optimizedAST :: "'n node option"
  optimizations :: "optimization list"
  statistics :: "category \<Rightarrow> nat"
  totalOptimizations :: nat
  errors :: "string list"
  warnings :: "string list"

definition new_OptimizationResult :: "'n OptimizationResult" where
  "new_OptimizationResult =
     \<lparr>success = False, optimizedAST = None, optimizations = [], statistics = (\<lambda>c. 0),
      totalOptimizations = 0, errors = [], warnings = []\<rparr>"

definition getNodeInfo :: "'n node \<Rightarrow> string \<times> nat \<times> nat" where
  "getNodeInfo node =
     (node_type node,
      (case node_pos node of None \<Rightarrow> 0 | Some (line, column) \<Rightarrow> line),
      (case node_pos node of None \<Rightarrow> 0 | Some (line, column) \<Rightarrow> column))"

definition addOptimization ::
    "category \<Rightarrow> string \<Rightarrow> 'n node \<Rightarrow> 'n OptimizationResult \<Rightarrow> 'n OptimizationResult" where
  "addOptimization type descr node r =
     r\<lparr>optimizations :=
         optimizations r @ [\<lparr>otype = type, description = descr, node_info = getNodeInfo node\<rparr>],
       statistics := (statistics r)(type := statistics r type + 1),
       totalOptimizations := totalOptimizations r + 1\<rparr>"

definition addWarning :: "string \<Rightarrow> 'n OptimizationResult \<Rightarrow> 'n OptimizationResult" where
  "addWarning warning r = r\<lparr>warnings := warnings r @ [warning]\<rparr>"

definition addError :: "string \<Rightarrow> 'n OptimizationResult \<Rightarrow> 'n OptimizationResult" where
  "addError error r = r\<lparr>errors := errors r @ [error]\<rparr>"

text \<open>
  What a rewrite pass mutates: the outcome record it is handed and the optimizer's own
  \<open>optimizationCount\<close>. Every rewrite calls \<open>result.addOptimization(...)\<close> and then
  \<open>this.optimizationCount++\<close>.
\<close>

type_synonym 'n pass_state = "'n OptimizationResult \<times> nat"

definition record_rewrite ::
    "category \<Rightarrow> string \<Rightarrow> 'n node \<Rightarrow> 'n pass_state \<Rightarrow> 'n pass_state" where
  "record_rewrite type descr node st = (addOptimization type descr node (fst st), snd st + 1)"

section \<open>Constant folder\<close>

text \<open>
  The part of \<open>constantFolding\<close> that runs once the children are folded. \<open>folded\<close> is its
  tail: build the new literal, log the fold, count it.
\<close>

definition folded ::
    "'n host \<Rightarrow> 'n node \<Rightarrow> string \<Rightarrow> 'n \<Rightarrow> 'n \<Rightarrow> 'n \<Rightarrow> 'n pass_state \<Rightarrow> 'n node \<times> 'n pass_state" where
  "folded h optimizedNode operator leftValue rightValue resultValue st =
     (NumericLiteral (node_pos optimizedNode) (toString h resultValue),
      record_rewrite constantFoldings
        (''Folded constant expression: '' @ toString h leftValue @ '' '' @ operator @ '' ''
           @ toString h rightValue @ '' = '' @ toString h resultValue)
        optimizedNode st)"

fun constantFolding_node :: "'n host \<Rightarrow> 'n node \<Rightarrow> 'n pass_state \<Rightarrow> 'n node \<times> 'n pass_state" where
  "constantFolding_node h (BinaryExpression p operator (NumericLiteral pl lv) (NumericLiteral pr rv)) st =
     (let optimizedNode = BinaryExpression p operator (NumericLiteral pl lv) (NumericLiteral pr rv);
          leftValue = parseFloat h lv;
          rightValue = parseFloat h rv
      in if operator = ''+'' then
           folded h optimizedNode operator leftValue rightValue (num_add h leftValue rightValue) st
         else if operator = ''-'' then
           folded h optimizedNode operator leftValue rightValue (num_sub h leftValue rightValue) st
         else if operator = ''*'' then
           folded h optimizedNode operator leftValue rightValue (num_mul h leftValue rightValue) st
         else if operator = ''/'' then
           (if \<not> strict_eq h rightValue (zero h) then
              folded h optimizedNode operator leftValue rightValue (num_div h leftValue rightValue) st
            else (optimizedNode,
                  (addWarning ''Division by zero detected during constant folding'' (fst st), snd st)))
         else if operator = ''%'' then
           (if \<not> strict_eq h rightValue (zero h) then
              folded h optimizedNode operator leftValue rightValue (num_mod h leftValue rightValue) st
            else (optimizedNode,
                  (addWarning ''Modulo by zero detected during constant folding'' (fst st), snd st)))
         else (optimizedNode, st))"
| "constantFolding_node h optimizedNode st = (optimizedNode, st)"

fun constantFolding :: "'n host \<Rightarrow> 'n node \<Rightarrow> 'n pass_state \<Rightarrow> 'n node \<times> 'n pass_state" where
  "constantFolding h node st =
     (case each_child (\<lambda>child s. constantFolding h child s) node st of
        (optimizedNode, st1) \<Rightarrow> constantFolding_node h optimizedNode st1)"

section \<open>Algebraic simplifier\<close>

text \<open>\<open>x.type === 'NumericLiteral' && parseFloat(x.value) === c\<close>\<close>

fun literal_equals :: "'n host \<Rightarrow> 'n node \<Rightarrow> 'n \<Rightarrow> bool" where
  "literal_equals h (NumericLiteral p v) c = strict_eq h (parseFloat h v) c"
| "literal_equals h node c = False"

definition simplified :: "string \<Rightarrow> 'n node \<Rightarrow> 'n pass_state \<Rightarrow> 'n pass_state" where
  "simplified descr optimizedNode st = record_rewrite algebraicSimplifications descr optimizedNode st"

fun algebraicSimplification_node ::
    "'n host \<Rightarrow> 'n node \<Rightarrow> 'n pass_state \<Rightarrow> 'n node \<times> 'n pass_state" where
  "algebraicSimplification_node h (BinaryExpression p operator left right) st =
     (let optimizedNode = BinaryExpression p operator left right
      in if operator = ''+'' \<and> literal_equals h right (zero h) then
           (left, simplified ''Simplified x + 0 to x'' optimizedNode st)
         else if operator = ''+'' \<and> literal_equals h left (zero h) then
           (right, simplified ''Simplified 0 + x to x'' optimizedNode st)
         else if operator = ''-'' \<and> literal_equals h right (zero h) then
           (left, simplified ''Simplified x - 0 to x'' optimizedNode st)
         else if operator = ''*'' \<and> literal_equals h right (one h) then
           (left, simplified ''Simplified x * 1 to x'' optimizedNode st)
         else if operator = ''*'' \<and> literal_equals h left (one h) then
           (right, simplified ''Simplified 1 * x to x'' optimizedNode st)
         else if operator = ''*'' \<and>
                 (literal_equals h right (zero h) \<or> literal_equals h left (zero h)) then
           (NumericLiteral p ''0'', simplified ''Simplified x * 0 to 0'' optimizedNode st)
         else if operator = ''/'' \<and> literal_equals h right (one h) then
           (left, simplified ''Simplified x / 1 to x'' optimizedNode st)
         else (optimizedNode, st))"
| "algebraicSimplification_node h optimizedNode st = (optimizedNode, st)"

fun algebraicSimplification ::
    "'n host \<Rightarrow> 'n node \<Rightarrow> 'n pass_state \<Rightarrow> 'n node \<times> 'n pass_state" where
  "algebraicSimplification h node st =
     (case each_child (\<lambda>child s. algebraicSimplification h child s) node st of
        (optimizedNode, st1) \<Rightarrow> algebraicSimplification_node h optimizedNode st1)"

section \<open>Common-subexpression detector\<close>

fun getExpressionKey :: "'n node \<Rightarrow> string" where
  "getExpressionKey (BinaryExpression p operator left right) =
     getExpressionKey left @ operator @ getExpressionKey right"
| "getExpressionKey (Identifier p name) = name"
| "getExpressionKey (NumericLiteral p v) = v"
| "getExpressionKey expr = node_type expr"

text \<open>
  \<open>expressionMap\<close> is created by every call of \<open>commonSubexpressionElimination\<close> and shared
  by the calls of the inner \<open>findCommonExpressions\<close>; it maps a key to the node first seen
  with it.
\<close>

type_synonym 'n cse_state = "(string \<times> 'n node) list \<times> 'n pass_state"

fun findCommonExpressions_node :: "'n node \<Rightarrow> 'n cse_state \<Rightarrow> 'n node \<times> 'n cse_state" where
  "findCommonExpressions_node (BinaryExpression p operator left right) (expressionMap, st) =
     (let currentNode = BinaryExpression p operator left right;
          exprKey = getExpressionKey currentNode
      in if map_of expressionMap exprKey \<noteq> None then
           (currentNode,
            (expressionMap,
             record_rewrite commonSubexpressionEliminations
               (''Found common subexpression: '' @ exprKey) currentNode st))
         else (currentNode, (AList.update exprKey currentNode expressionMap, st)))"
| "findCommonExpressions_node currentNode s = (currentNode, s)"

fun findCommonExpressions :: "'n node \<Rightarrow> 'n cse_state \<Rightarrow> 'n node \<times> 'n cse_state" where
  "findCommonExpressions currentNode s =
     (case each_child (\<lambda>child s'. findCommonExpressions child s') currentNode s of
        (currentNode', s1) \<Rightarrow> findCommonExpressions_node currentNode' s1)"

definition commonSubexpressionElimination ::
    "'n node \<Rightarrow> 'n pass_state \<Rightarrow> 'n node \<times> 'n pass_state" where
  "commonSubexpressionElimination node st =
     (case findCommonExpressions node ([], st) of (node', (expressionMap, st')) \<Rightarrow> (node', st'))"

section \<open>Dead-code eliminator\<close>

text \<open>
  \<open>stmt.type === 'ExpressionStatement' && stmt.expression &&
  stmt.expression.type === 'NumericLiteral'\<close>
\<close>

fun is_standalone_literal :: "'n node \<Rightarrow> bool" where
  "is_standalone_literal (ExpressionStatement p (NumericLiteral q v)) = True"
| "is_standalone_literal stmt = False"

text \<open>The callback of \<open>body.filter\<close>, with its logging.\<close>

fun filter_dead :: "'n node list \<Rightarrow> 'n pass_state \<Rightarrow> 'n node list \<times> 'n pass_state" where
  "filter_dead [] st = ([], st)"
| "filter_dead (stmt # rest) st =
     (if is_standalone_literal stmt then
        filter_dead rest
          (record_rewrite deadCodeEliminations
             ''Removed dead code: standalone numeric literal'' stmt st)
      else (case filter_dead rest st of (rest', st1) \<Rightarrow> (stmt # rest', st1)))"

lemma fst_filter_dead:
  "fst (filter_dead body st) = filter (\<lambda>stmt. \<not> is_standalone_literal stmt) body"
  by (induction body arbitrary: st) (simp_all add: split_beta)

lemma size_filter_dead:
  "x \<in> set (fst (filter_dead body st)) \<Longrightarrow> size x < Suc (size_list size body)"
  unfolding fst_filter_dead by (auto dest: size_list_estimation' [where f = size])

lemma child_nodes_measure:
  "c \<in> set (child_nodes n) \<Longrightarrow> ((c, s), (n, t)) \<in> measure (\<lambda>(node, st). size node)"
  by (simp only: in_measure prod.case size_child_nodes)

function (sequential) deadCodeElimination ::
    "'n node \<Rightarrow> 'n pass_state \<Rightarrow> 'n node \<times> 'n pass_state" where
  "deadCodeElimination (Program p body) st =
     (case filter_dead body st of
        (kept, st1) \<Rightarrow>
          (case mapS (\<lambda>stmt s. deadCodeElimination stmt s) kept st1 of
             (body', st2) \<Rightarrow> (Program p body', st2)))"
| "deadCodeElimination node st = each_child (\<lambda>child s. deadCodeElimination child s) node st"
  by pat_completeness auto
termination
proof (relation "measure (\<lambda>(node, st). size node)", goal_cases)
  case 1
  show ?case by simp
next
  case (2 p body st kept st1 stmt s)
  then have "stmt \<in> set (fst (filter_dead body st))"
    by (metis fst_conv)
  then show ?case by (simp add: size_filter_dead)
qed (rule child_nodes_measure, assumption)+

section \<open>Optimization driver\<close>

record options =
  enableConstantFolding :: bool
  enableAlgebraicSimplification :: bool
  enableCommonSubexpressionElimination :: bool
  enableDeadCodeElimination :: bool
  maxOptimizationPasses :: nat

definition default_options :: options where
  "default_options =
     \<lparr>enableConstantFolding = True, enableAlgebraicSimplification = True,
      enableCommonSubexpressionElimination = True, enableDeadCodeElimination = True,
      maxOptimizationPasses = 3\<rparr>"

text \<open>
  The optimizer object: its options and the two counters it keeps between calls.
  \<open>optimize\<close> resets \<open>currentPass\<close> and leaves \<open>optimizationCount\<close> as the last call left it.
\<close>

record Optimizer =
  opts :: options
  optimizationCount :: nat
  currentPass :: nat

definition new_Optimizer :: "options \<Rightarrow> Optimizer" where
  "new_Optimizer os = \<lparr>opts = os, optimizationCount = 0, currentPass = 0\<rparr>"

definition performOptimizationPass ::
    "'n host \<Rightarrow> options \<Rightarrow> 'n node \<Rightarrow> 'n pass_state \<Rightarrow> 'n node \<times> 'n pass_state" where
  "performOptimizationPass h os ast st =
     (case (if enableConstantFolding os then constantFolding h ast st else (ast, st)) of
        (ast1, st1) \<Rightarrow>
     (case (if enableAlgebraicSimplification os then algebraicSimplification h ast1 st1
            else (ast1, st1)) of
        (ast2, st2) \<Rightarrow>
     (case (if enableCommonSubexpressionElimination os then commonSubexpressionElimination ast2 st2
            else (ast2, st2)) of
        (ast3, st3) \<Rightarrow>
     (if enableDeadCodeElimination os then deadCodeElimination ast3 st3 else (ast3, st3)))))"

text \<open>
  The \<open>while (hasChanges && this.currentPass < maxOptimizationPasses)\<close> loop. Its state is
  the tree, \<open>hasChanges\<close>, \<open>currentPass\<close> and what the passes mutate; it returns all four.
\<close>

function optimize_loop ::
    "'n host \<Rightarrow> options \<Rightarrow> 'n node \<Rightarrow> bool \<Rightarrow> nat \<Rightarrow> 'n pass_state
      \<Rightarrow> 'n node \<times> bool \<times> nat \<times> 'n pass_state" where
  "optimize_loop h os ast hasChanges pass st =
     (if hasChanges \<and> pass < maxOptimizationPasses os then
        (let passStartCount = snd st in
         case performOptimizationPass h os ast st of
           (ast', st') \<Rightarrow> optimize_loop h os ast' (snd st' > passStartCount) (pass + 1) st')
      else (ast, hasChanges, pass, st))"
  by pat_completeness auto
termination
  by (relation "measure (\<lambda>(h, os, ast, hasChanges, pass, st). maxOptimizationPasses os - pass)") auto

declare optimize_loop.simps [simp del]

text \<open>
  \<open>optimize\<close>: no statement of the \<open>try\<close> block can throw on a tree of this type, so the
  \<open>catch\<close> branch has no counterpart. The result is the outcome record and the optimizer
  with its counters updated.
\<close>

definition optimize :: "'n host \<Rightarrow> Optimizer \<Rightarrow> 'n node \<Rightarrow> 'n OptimizationResult \<times> Optimizer" where
  "optimize h this ast =
     (case optimize_loop h (opts this) ast True 0 (new_OptimizationResult, optimizationCount this) of
        (ast', hasChanges, pass, (result, count)) \<Rightarrow>
          (result\<lparr>optimizedAST := Some ast', success := True\<rparr>,
           this\<lparr>optimizationCount := count, currentPass := pass\<rparr>))"

section \<open>Text\<close>

text \<open>
  Strings are lists of bytes. The decimal rendering of a non-negative integer, as
  \<open>Number.prototype.toString\<close> and template literals give it for array lengths, counters
  and addresses.
\<close>

definition digit_char :: "nat \<Rightarrow> char" where
  "digit_char d = ''0123456789'' ! d"

fun show_nat :: "nat \<Rightarrow> string" where
  "show_nat n = (if n < 10 then [digit_char n] else show_nat (n div 10) @ [digit_char (n mod 10)])"

declare show_nat.simps [simp del]

text \<open>\<open>s.padStart(4, '0')\<close>\<close>

definition padStart4 :: "string \<Rightarrow> string" where
  "padStart4 s = replicate (4 - length s) (CHR ''0'') @ s"

text \<open>\<open>lines.join('\n')\<close>\<close>

fun join_lines :: "string list \<Rightarrow> string" where
  "join_lines [] = []"
| "join_lines [l] = l"
| "join_lines (l # ls) = l @ [CHR 0x0A] @ join_lines ls"

text \<open>
  The fixed texts of the generator (comments, messages, the header of the rendering) are
  Chinese; they are given as their UTF-8 bytes.
\<close>

definition comment_program_entry :: string where
  "comment_program_entry =
     [CHR 0xE7, CHR 0xA8, CHR 0x8B, CHR 0xE5, CHR 0xBA, CHR 0x8F, CHR 0xE5, CHR 0xBC,
     CHR 0x80, CHR 0xE5, CHR 0xA7, CHR 0x8B, CHR 0xEF, CHR 0xBC, CHR 0x8C, CHR 0xE5,
     CHR 0x88, CHR 0x9D, CHR 0xE5, CHR 0xA7, CHR 0x8B, CHR 0xE5, CHR 0x8C, CHR 0x96,
     CHR 0xE6, CHR 0xA0, CHR 0x88, CHR 0xE5, CHR 0xB8, CHR 0xA7]"

definition comment_program_exit :: string where
  "comment_program_exit =
     [CHR 0xE7, CHR 0xA8, CHR 0x8B, CHR 0xE5, CHR 0xBA, CHR 0x8F, CHR 0xE7, CHR 0xBB,
     CHR 0x93, CHR 0xE6, CHR 0x9D, CHR 0x9F]"

definition comment_store_prefix :: string where
  "comment_store_prefix =
     [CHR 0xE5, CHR 0xAD, CHR 0x98, CHR 0xE5, CHR 0x82, CHR 0xA8, CHR 0xE5, CHR 0x88,
     CHR 0xB0, CHR 0xE5, CHR 0x8F, CHR 0x98, CHR 0xE9, CHR 0x87, CHR 0x8F] @ '' ''"

definition comment_assign_prefix :: string where
  "comment_assign_prefix =
     [CHR 0xE8, CHR 0xB5, CHR 0x8B, CHR 0xE5, CHR 0x80, CHR 0xBC, CHR 0xE7, CHR 0xBB,
     CHR 0x99, CHR 0xE5, CHR 0x8F, CHR 0x98, CHR 0xE9, CHR 0x87, CHR 0x8F] @ '' ''"

definition comment_operation_suffix :: string where
  "comment_operation_suffix =
     '' '' @ [CHR 0xE8, CHR 0xBF, CHR 0x90, CHR 0xE7, CHR 0xAE, CHR 0x97]"

definition comment_load_constant_prefix :: string where
  "comment_load_constant_prefix =
     [CHR 0xE5, CHR 0x8A, CHR 0xA0, CHR 0xE8, CHR 0xBD, CHR 0xBD, CHR 0xE5, CHR 0xB8,
     CHR 0xB8, CHR 0xE9, CHR 0x87, CHR 0x8F] @ '' ''"

definition comment_load_variable_prefix :: string where
  "comment_load_variable_prefix =
     [CHR 0xE5, CHR 0x8A, CHR 0xA0, CHR 0xE8, CHR 0xBD, CHR 0xBD, CHR 0xE5, CHR 0x8F,
     CHR 0x98, CHR 0xE9, CHR 0x87, CHR 0x8F] @ '' ''"

definition comment_if_jump :: string where
  "comment_if_jump =
     ''if'' @ [CHR 0xE6, CHR 0x9D, CHR 0xA1, CHR 0xE4, CHR 0xBB, CHR 0xB6, CHR 0xE4,
     CHR 0xB8, CHR 0xBA, CHR 0xE5, CHR 0x81, CHR 0x87, CHR 0xE6, CHR 0x97, CHR 0xB6,
     CHR 0xE8, CHR 0xB7, CHR 0xB3, CHR 0xE8, CHR 0xBD, CHR 0xAC]"

definition comment_if_end :: string where
  "comment_if_end =
     [CHR 0xE8, CHR 0xB7, CHR 0xB3, CHR 0xE8, CHR 0xBD, CHR 0xAC, CHR 0xE5, CHR 0x88,
     CHR 0xB0] @ ''if'' @ [CHR 0xE8, CHR 0xAF, CHR 0xAD, CHR 0xE5, CHR 0x8F, CHR 0xA5,
     CHR 0xE7, CHR 0xBB, CHR 0x93, CHR 0xE6, CHR 0x9D, CHR 0x9F]"

definition comment_while_exit :: string where
  "comment_while_exit =
     ''while'' @ [CHR 0xE6, CHR 0x9D, CHR 0xA1, CHR 0xE4, CHR 0xBB, CHR 0xB6, CHR 0xE4,
     CHR 0xB8, CHR 0xBA, CHR 0xE5, CHR 0x81, CHR 0x87, CHR 0xE6, CHR 0x97, CHR 0xB6,
     CHR 0xE8, CHR 0xB7, CHR 0xB3, CHR 0xE5, CHR 0x87, CHR 0xBA, CHR 0xE5, CHR 0xBE,
     CHR 0xAA, CHR 0xE7, CHR 0x8E, CHR 0xAF]"

definition comment_while_back :: string where
  "comment_while_back =
     [CHR 0xE8, CHR 0xB7, CHR 0xB3, CHR 0xE5, CHR 0x9B, CHR 0x9E, CHR 0xE5, CHR 0xBE,
     CHR 0xAA, CHR 0xE7, CHR 0x8E, CHR 0xAF, CHR 0xE5, CHR 0xBC, CHR 0x80, CHR 0xE5,
     CHR 0xA7, CHR 0x8B]"

definition comment_pop :: string where
  "comment_pop =
     [CHR 0xE5, CHR 0xBC, CHR 0xB9, CHR 0xE5, CHR 0x87, CHR 0xBA, CHR 0xE8, CHR 0xA1,
     CHR 0xA8, CHR 0xE8, CHR 0xBE, CHR 0xBE, CHR 0xE5, CHR 0xBC, CHR 0x8F, CHR 0xE7,
     CHR 0xBB, CHR 0x93, CHR 0xE6, CHR 0x9E, CHR 0x9C]"

definition comment_print :: string where
  "comment_print =
     [CHR 0xE6, CHR 0x89, CHR 0x93, CHR 0xE5, CHR 0x8D, CHR 0xB0, CHR 0xE8, CHR 0xBE,
     CHR 0x93, CHR 0xE5, CHR 0x87, CHR 0xBA]"

definition msg_undefined_variable :: string where
  "msg_undefined_variable =
     [CHR 0xE6, CHR 0x9C, CHR 0xAA, CHR 0xE5, CHR 0xAE, CHR 0x9A, CHR 0xE4, CHR 0xB9,
     CHR 0x89, CHR 0xE7, CHR 0x9A, CHR 0x84, CHR 0xE5, CHR 0x8F, CHR 0x98, CHR 0xE9,
     CHR 0x87, CHR 0x8F] @ '': ''"

definition msg_unsupported_binary :: string where
  "msg_unsupported_binary =
     [CHR 0xE4, CHR 0xB8, CHR 0x8D, CHR 0xE6, CHR 0x94, CHR 0xAF, CHR 0xE6, CHR 0x8C,
     CHR 0x81, CHR 0xE7, CHR 0x9A, CHR 0x84, CHR 0xE4, CHR 0xBA, CHR 0x8C, CHR 0xE5,
     CHR 0x85, CHR 0x83, CHR 0xE8, CHR 0xBF, CHR 0x90, CHR 0xE7, CHR 0xAE, CHR 0x97,
     CHR 0xE7, CHR 0xAC, CHR 0xA6] @ '': ''"

definition msg_unsupported_unary :: string where
  "msg_unsupported_unary =
     [CHR 0xE4, CHR 0xB8, CHR 0x8D, CHR 0xE6, CHR 0x94, CHR 0xAF, CHR 0xE6, CHR 0x8C,
     CHR 0x81, CHR 0xE7, CHR 0x9A, CHR 0x84, CHR 0xE4, CHR 0xB8, CHR 0x80, CHR 0xE5,
     CHR 0x85, CHR 0x83, CHR 0xE8, CHR 0xBF, CHR 0x90, CHR 0xE7, CHR 0xAE, CHR 0x97,
     CHR 0xE7, CHR 0xAC, CHR 0xA6] @ '': ''"

definition msg_unsupported_node :: string where
  "msg_unsupported_node =
     [CHR 0xE4, CHR 0xB8, CHR 0x8D, CHR 0xE6, CHR 0x94, CHR 0xAF, CHR 0xE6, CHR 0x8C,
     CHR 0x81, CHR 0xE7, CHR 0x9A, CHR 0x84, CHR 0xE8, CHR 0x8A, CHR 0x82, CHR 0xE7,
     CHR 0x82, CHR 0xB9, CHR 0xE7, CHR 0xB1, CHR 0xBB, CHR 0xE5, CHR 0x9E, CHR 0x8B] @
     '': ''"

definition asm_header :: string where
  "asm_header =
     ''; '' @ [CHR 0xE7, CHR 0xBC, CHR 0x96, CHR 0xE8, CHR 0xAF, CHR 0x91, CHR 0xE5,
     CHR 0x99, CHR 0xA8, CHR 0xE7, CHR 0x94, CHR 0x9F, CHR 0xE6, CHR 0x88, CHR 0x90,
     CHR 0xE7, CHR 0x9A, CHR 0x84, CHR 0xE6, CHR 0xB1, CHR 0x87, CHR 0xE7, CHR 0xBC,
     CHR 0x96, CHR 0xE4, CHR 0xBB, CHR 0xA3, CHR 0xE7, CHR 0xA0, CHR 0x81]"

definition asm_target :: string where
  "asm_target =
     ''; '' @ [CHR 0xE7, CHR 0x9B, CHR 0xAE, CHR 0xE6, CHR 0xA0, CHR 0x87, CHR 0xE6,
     CHR 0x9C, CHR 0xBA, CHR 0xEF, CHR 0xBC, CHR 0x9A, CHR 0xE5, CHR 0x9F, CHR 0xBA,
     CHR 0xE4, CHR 0xBA, CHR 0x8E, CHR 0xE6, CHR 0xA0, CHR 0x88, CHR 0xE7, CHR 0x9A,
     CHR 0x84, CHR 0xE8, CHR 0x99, CHR 0x9A, CHR 0xE6, CHR 0x8B, CHR 0x9F, CHR 0xE6,
     CHR 0x9C, CHR 0xBA]"

definition asm_symbols :: string where
  "asm_symbols =
     ''; '' @ [CHR 0xE7, CHR 0xAC, CHR 0xA6, CHR 0xE5, CHR 0x8F, CHR 0xB7, CHR 0xE8,
     CHR 0xA1, CHR 0xA8] @ '':''"

section \<open>A host on the integers\<close>

text \<open>
  An instance of the host operations, for running the model on examples whose literals are
  integers: decimal parsing and printing, exact sums, differences and products, and the
  truncating quotient and remainder (the remainder takes the sign of the dividend, as
  JavaScript's \<open>%\<close> does).
\<close>

definition show_int :: "int \<Rightarrow> string" where
  "show_int x = (if x < 0 then ''-'' @ show_nat (nat (- x)) else show_nat (nat x))"

definition digit_value :: "char \<Rightarrow> nat" where
  "digit_value c = of_char c - 48"

definition parse_nat :: "string \<Rightarrow> nat" where
  "parse_nat s = foldl (\<lambda>a c. 10 * a + digit_value c) 0 s"

definition parse_int :: "string \<Rightarrow> int" where
  "parse_int s =
     (case s of
        [] \<Rightarrow> 0
      | c # cs \<Rightarrow> if c = CHR ''-'' then - int (parse_nat cs) else int (parse_nat s))"

definition int_host :: "int host" where
  "int_host =
     \<lparr>parseFloat = parse_int, toString = show_int,
      num_add = (+), num_sub = (-), num_mul = (*),
      num_div = (\<lambda>a b. sgn a * sgn b * (\<bar>a\<bar> div \<bar>b\<bar>)),
      num_mod = (\<lambda>a b. sgn a * (\<bar>a\<bar> mod \<bar>b\<bar>)),
      strict_eq = (=), zero = 0, one = 1\<rparr>"

section \<open>Instruction model\<close>

datatype opcode =
    LOAD | STORE | LOAD_VAR
  | ADD | SUB | MUL | DIV | MOD | NEG
  | EQ | NE | LT | LE | GT | GE
  | AND | OR | NOT
  | JMP | JZ | JNZ | CALL | RET
  | PUSH | POP | DUP
  | HALT | PRINT | INPUT

fun opcode_name :: "opcode \<Rightarrow> string" where
  "opcode_name LOAD = ''LOAD''" | "opcode_name STORE = ''STORE''"
| "opcode_name LOAD_VAR = ''LOAD_VAR''"
| "opcode_name ADD = ''ADD''" | "opcode_name SUB = ''SUB''" | "opcode_name MUL = ''MUL''"
| "opcode_name DIV = ''DIV''" | "opcode_name MOD = ''MOD''" | "opcode_name NEG = ''NEG''"
| "opcode_name EQ = ''EQ''" | "opcode_name NE = ''NE''" | "opcode_name LT = ''LT''"
| "opcode_name LE = ''LE''" | "opcode_name GT = ''GT''" | "opcode_name GE = ''GE''"
| "opcode_name AND = ''AND''" | "opcode_name OR = ''OR''" | "opcode_name NOT = ''NOT''"
| "opcode_name JMP = ''JMP''" | "opcode_name JZ = ''JZ''" | "opcode_name JNZ = ''JNZ''"
| "opcode_name CALL = ''CALL''" | "opcode_name RET = ''RET''"
| "opcode_name PUSH = ''PUSH''" | "opcode_name POP = ''POP''" | "opcode_name DUP = ''DUP''"
| "opcode_name HALT = ''HALT''" | "opcode_name PRINT = ''PRINT''"
| "opcode_name INPUT = ''INPUT''"

text \<open>
  The operand of an instruction is \<open>null\<close>, an integer the generator made itself (the 0 of
  the prologue, a variable address), a label name, or the value of a literal. \<open>addInstruction\<close>
  declares \<open>operand = null\<close> as the parameter's default, so an argument that is \<open>undefined\<close>
  (what \<open>symbolTable.get\<close> returns for a name it does not hold) is stored as \<open>null\<close>.
\<close>

datatype 'n operand =
    OpNull
  | OpNumber nat
  | OpLabel string
  | OpLiteral "'n litval"

record 'n instruction =
  address :: nat
  opcode :: opcode
  operand :: "'n operand"
  comment :: string

text \<open>
  An error or warning record. Its \<open>location\<close> is always empty: a thrown \<open>Error\<close> carries
  none, and nodes carry \<open>line\<close> and \<open>column\<close>, not \<open>location\<close>.
\<close>

record diagnostic =
  dtype :: string
  message :: string

text \<open>
  \<open>CodeGenerationResult\<close>. The two tables are JavaScript Maps: association lists in
  insertion order, where setting a key that is present keeps its place. The elapsed time
  is left out.
\<close>

record 'n CodeGenerationResult =
  gen_success :: bool
  instructions :: "'n instruction list"
  assembly :: string
  symbolTable :: "(string \<times> nat) list"
  labelTable :: "(string \<times> nat) list"
  gen_errors :: "diagnostic list"
  gen_warnings :: "diagnostic list"
  instructionCount :: nat
  variableCount :: nat
  labelCount :: nat

definition new_CodeGenerationResult :: "'n CodeGenerationResult" where
  "new_CodeGenerationResult =
     \<lparr>gen_success = False, instructions = [], assembly = [], symbolTable = [], labelTable = [],
      gen_errors = [], gen_warnings = [], instructionCount = 0, variableCount = 0,
      labelCount = 0\<rparr>"

definition addInstruction ::
    "opcode \<Rightarrow> 'n operand \<Rightarrow> string \<Rightarrow> 'n CodeGenerationResult \<Rightarrow> 'n CodeGenerationResult" where
  "addInstruction opc opnd cmt r =
     r\<lparr>instructions :=
         instructions r @
           [\<lparr>address = length (instructions r), opcode = opc, operand = opnd, comment = cmt\<rparr>],
       instructionCount := instructionCount r + 1\<rparr>"

definition addLabel :: "string \<Rightarrow> 'n CodeGenerationResult \<Rightarrow> 'n CodeGenerationResult" where
  "addLabel name r =
     r\<lparr>labelTable := AList.update name (length (instructions r)) (labelTable r),
       labelCount := labelCount r + 1\<rparr>"

definition addVariable :: "string \<Rightarrow> nat \<Rightarrow> 'n CodeGenerationResult \<Rightarrow> 'n CodeGenerationResult" where
  "addVariable name addr r =
     r\<lparr>symbolTable := AList.update name addr (symbolTable r),
       variableCount := variableCount r + 1\<rparr>"

subsection \<open>Rendering\<close>

text \<open>A template literal applied to a literal's value, \<open>`${node.value}`\<close>.\<close>

fun render_value :: "'n host \<Rightarrow> 'n litval \<Rightarrow> string" where
  "render_value h (LNumber x) = toString h x"
| "render_value h (LString s) = s"
| "render_value h (LBoolean b) = (if b then ''true'' else ''false'')"
| "render_value h LNull = ''null''"

fun render_operand :: "'n host \<Rightarrow> 'n operand \<Rightarrow> string" where
  "render_operand h OpNull = ''null''"
| "render_operand h (OpNumber n) = show_nat n"
| "render_operand h (OpLabel l) = l"
| "render_operand h (OpLiteral v) = render_value h v"

definition render_instruction :: "'n host \<Rightarrow> 'n instruction \<Rightarrow> string" where
  "render_instruction h i =
     padStart4 (show_nat (address i)) @ '': '' @ opcode_name (opcode i)
       @ (if operand i \<noteq> OpNull then '' '' @ render_operand h (operand i) else [])
       @ (if comment i \<noteq> [] then '' ; '' @ comment i else [])"

definition assembly_lines :: "'n host \<Rightarrow> 'n CodeGenerationResult \<Rightarrow> string list" where
  "assembly_lines h r =
     [asm_header, asm_target, []]
       @ (if length (symbolTable r) > 0 then
            [asm_symbols]
              @ map (\<lambda>(name, addr). ''; '' @ name @ '' -> '' @ show_nat addr) (symbolTable r)
              @ [[]]
          else [])
       @ map (render_instruction h) (instructions r)"

definition generateAssembly :: "'n host \<Rightarrow> 'n CodeGenerationResult \<Rightarrow> 'n CodeGenerationResult" where
  "generateAssembly h r = r\<lparr>assembly := join_lines (assembly_lines h r)\<rparr>"

section \<open>Code generator\<close>

text \<open>
  The generator object: the option that gates the peephole pass, the outcome under
  construction and the label counter. A thrown \<open>Error\<close> is the first component of a
  result, \<open>Some\<close> of its message; the second is the generator as the throw left it, since
  everything emitted before stays in \<open>this.result\<close>.
\<close>

record 'n CodeGenerator =
  optimizeCode :: bool
  result :: "'n CodeGenerationResult"
  labelCounter :: nat

definition new_CodeGenerator :: "bool \<Rightarrow> 'n CodeGenerator" where
  "new_CodeGenerator oc = \<lparr>optimizeCode = oc, result = new_CodeGenerationResult, labelCounter = 0\<rparr>"

definition emit :: "opcode \<Rightarrow> 'n operand \<Rightarrow> string \<Rightarrow> 'n CodeGenerator \<Rightarrow> 'n CodeGenerator" where
  "emit opc opnd cmt g = g\<lparr>result := addInstruction opc opnd cmt (result g)\<rparr>"

definition place_label :: "string \<Rightarrow> 'n CodeGenerator \<Rightarrow> 'n CodeGenerator" where
  "place_label name g = g\<lparr>result := addLabel name (result g)\<rparr>"

definition warn_unsupported :: "'n node \<Rightarrow> 'n CodeGenerator \<Rightarrow> 'n CodeGenerator" where
  "warn_unsupported node g =
     g\<lparr>result := (result g)\<lparr>gen_warnings := gen_warnings (result g) @
          [\<lparr>dtype = ''unsupported_node'', message = msg_unsupported_node @ node_type node\<rparr>]\<rparr>\<rparr>"

text \<open>\<open>generateLabel(prefix)\<close>: the name, and the generator with its counter advanced.\<close>

definition generateLabel :: "string \<Rightarrow> 'n CodeGenerator \<Rightarrow> string \<times> 'n CodeGenerator" where
  "generateLabel pfx g =
     (pfx @ ''_'' @ show_nat (labelCounter g), g\<lparr>labelCounter := labelCounter g + 1\<rparr>)"

text \<open>The two \<open>switch (operator)\<close> tables; \<open>None\<close> is the \<open>default\<close> branch, which throws.\<close>

definition binary_instruction :: "string \<Rightarrow> opcode option" where
  "binary_instruction operator =
     (if operator = ''+'' then Some ADD
      else if operator = ''-'' then Some SUB
      else if operator = ''*'' then Some MUL
      else if operator = ''/'' then Some DIV
      else if operator = ''%'' then Some MOD
      else if operator = ''=='' then Some EQ
      else if operator = ''!='' then Some NE
      else if operator = ''<'' then Some LT
      else if operator = ''<='' then Some LE
      else if operator = ''>'' then Some GT
      else if operator = ''>='' then Some GE
      else if operator = ''&&'' then Some AND
      else if operator = ''||'' then Some OR
      else None)"

definition unary_instruction :: "string \<Rightarrow> opcode option" where
  "unary_instruction operator =
     (if operator = ''-'' then Some NEG
      else if operator = ''!'' then Some NOT
      else None)"

text \<open>
  The operand \<open>addInstruction\<close> stores for the result of \<open>symbolTable.get(varName)\<close>, and for
  the \<open>value\<close> of a literal.
\<close>

definition address_operand :: "nat option \<Rightarrow> 'n operand" where
  "address_operand a = (case a of None \<Rightarrow> OpNull | Some addr \<Rightarrow> OpNumber addr)"

definition literal_operand :: "'n litval \<Rightarrow> 'n operand" where
  "literal_operand v = (case v of LNull \<Rightarrow> OpNull | _ \<Rightarrow> OpLiteral v)"

text \<open>
  \<open>generateNode\<close> with the \<open>generate...\<close> methods it dispatches to; \<open>generateStatements\<close> is
  the \<open>for (const statement of node.body)\<close> loop of \<open>generateProgram\<close> and
  \<open>generateBlockStatement\<close>, \<open>generateDeclarations\<close> the loop of
  \<open>generateVariableDeclaration\<close>.
\<close>

fun generateNode :: "'n host \<Rightarrow> 'n node \<Rightarrow> 'n CodeGenerator \<Rightarrow> string option \<times> 'n CodeGenerator"
  and generateStatements ::
    "'n host \<Rightarrow> 'n node list \<Rightarrow> 'n CodeGenerator \<Rightarrow> string option \<times> 'n CodeGenerator"
  and generateDeclarations ::
    "'n host \<Rightarrow> (string \<times> 'n node option) list \<Rightarrow> 'n CodeGenerator
      \<Rightarrow> string option \<times> 'n CodeGenerator" where
  "generateNode h (Program p body) g = generateStatements h body g"
| "generateNode h (VariableDeclaration p declarations) g = generateDeclarations h declarations g"
| "generateNode h (AssignmentExpression p left right) g =
     (case generateNode h right g of
        (Some e, g1) \<Rightarrow> (Some e, g1)
      | (None, g1) \<Rightarrow>
          (case left of
             Identifier q varName \<Rightarrow>
               (case map_of (symbolTable (result g1)) varName of
                  Some addr \<Rightarrow>
                    (None, emit STORE (OpNumber addr) (comment_assign_prefix @ varName) g1)
                | None \<Rightarrow> (Some (msg_undefined_variable @ varName), g1))
           | _ \<Rightarrow> (None, g1)))"
| "generateNode h (BinaryExpression p operator left right) g =
     (case generateNode h left g of
        (Some e, g1) \<Rightarrow> (Some e, g1)
      | (None, g1) \<Rightarrow>
          (case generateNode h right g1 of
             (Some e, g2) \<Rightarrow> (Some e, g2)
           | (None, g2) \<Rightarrow>
               (case binary_instruction operator of
                  None \<Rightarrow> (Some (msg_unsupported_binary @ operator), g2)
                | Some instruction \<Rightarrow>
                    (None, emit instruction OpNull (operator @ comment_operation_suffix) g2))))"
| "generateNode h (UnaryExpression p operator argument) g =
     (case generateNode h argument g of
        (Some e, g1) \<Rightarrow> (Some e, g1)
      | (None, g1) \<Rightarrow>
          (case unary_instruction operator of
             None \<Rightarrow> (Some (msg_unsupported_unary @ operator), g1)
           | Some instruction \<Rightarrow>
               (None, emit instruction OpNull (operator @ comment_operation_suffix) g1)))"
| "generateNode h (Literal p v) g =
     (None, emit LOAD (literal_operand v) (comment_load_constant_prefix @ render_value h v) g)"
| "generateNode h (Identifier p varName) g =
     (case map_of (symbolTable (result g)) varName of
        Some addr \<Rightarrow> (None, emit LOAD_VAR (OpNumber addr) (comment_load_variable_prefix @ varName) g)
      | None \<Rightarrow> (Some (msg_undefined_variable @ varName), g))"
| "generateNode h (IfStatement p test consequent alternate) g =
     (case generateLabel ''else'' g of
        (elseLabel, ga) \<Rightarrow>
     (case generateLabel ''endif'' ga of
        (endLabel, gb) \<Rightarrow>
     (case generateNode h test gb of
        (Some e, g1) \<Rightarrow> (Some e, g1)
      | (None, g1) \<Rightarrow>
          (case generateNode h consequent (emit JZ (OpLabel elseLabel) comment_if_jump g1) of
             (Some e, g2) \<Rightarrow> (Some e, g2)
           | (None, g2) \<Rightarrow>
               (let g3 = place_label elseLabel (emit JMP (OpLabel endLabel) comment_if_end g2)
                in case alternate of
                     None \<Rightarrow> (None, place_label endLabel g3)
                   | Some alt \<Rightarrow>
                       (case generateNode h alt g3 of
                          (Some e, g4) \<Rightarrow> (Some e, g4)
                        | (None, g4) \<Rightarrow> (None, place_label endLabel g4)))))))"
| "generateNode h (WhileStatement p test body) g =
     (case generateLabel ''loop'' g of
        (loopLabel, ga) \<Rightarrow>
     (case generateLabel ''endloop'' ga of
        (endLabel, gb) \<Rightarrow>
     (case generateNode h test (place_label loopLabel gb) of
        (Some e, g1) \<Rightarrow> (Some e, g1)
      | (None, g1) \<Rightarrow>
          (case generateNode h body (emit JZ (OpLabel endLabel) comment_while_exit g1) of
             (Some e, g2) \<Rightarrow> (Some e, g2)
           | (None, g2) \<Rightarrow>
               (None, place_label endLabel (emit JMP (OpLabel loopLabel) comment_while_back g2))))))"
| "generateNode h (BlockStatement p body) g = generateStatements h body g"
| "generateNode h (ExpressionStatement p expression) g =
     (case generateNode h expression g of
        (Some e, g1) \<Rightarrow> (Some e, g1)
      | (None, g1) \<Rightarrow> (None, emit POP OpNull comment_pop g1))"
| "generateNode h (PrintStatement p expression) g =
     (case generateNode h expression g of
        (Some e, g1) \<Rightarrow> (Some e, g1)
      | (None, g1) \<Rightarrow> (None, emit PRINT OpNull comment_print g1))"
| "generateNode h (NumericLiteral p v) g = (None, warn_unsupported (NumericLiteral p v) g)"
| "generateNode h (Other p tag cs) g = (None, warn_unsupported (Other p tag cs) g)"
| "generateStatements h [] g = (None, g)"
| "generateStatements h (statement # rest) g =
     (case generateNode h statement g of
        (Some e, g1) \<Rightarrow> (Some e, g1)
      | (None, g1) \<Rightarrow> generateStatements h rest g1)"
| "generateDeclarations h [] g = (None, g)"
| "generateDeclarations h ((varName, None) # rest) g = generateDeclarations h rest g"
| "generateDeclarations h ((varName, Some init) # rest) g =
     (case generateNode h init g of
        (Some e, g1) \<Rightarrow> (Some e, g1)
      | (None, g1) \<Rightarrow>
          generateDeclarations h rest
            (emit STORE (address_operand (map_of (symbolTable (result g1)) varName))
               (comment_store_prefix @ varName) g1))"

subsection \<open>Peephole pass\<close>

text \<open>
  The \<open>for\<close> loop of \<open>optimizeInstructions\<close>, from index \<open>i\<close>: \<open>splice(i, 2)\<close> followed by
  \<open>i--\<close> and the loop's \<open>i++\<close> leaves \<open>i\<close> where it is. The flag is \<open>optimized\<close>.
\<close>

function peephole_scan ::
    "nat \<Rightarrow> 'n instruction list \<Rightarrow> bool \<Rightarrow> 'n instruction list \<times> bool" where
  "peephole_scan i ins optimized =
     (if i + 1 < length ins then
        (if opcode (ins ! i) = PUSH \<and> opcode (ins ! (i + 1)) = POP then
           peephole_scan i (take i ins @ drop (i + 2) ins) True
         else peephole_scan (i + 1) ins optimized)
      else (ins, optimized))"
  by pat_completeness auto
termination
  by (relation "measure (\<lambda>(i, ins, optimized). length ins - i)") auto

declare peephole_scan.simps [simp del]

text \<open>
  \<open>updateInstructionAddresses\<close>: every instruction gets its index as address. The loop over
  the label table stores every label's old address again, which changes nothing.
\<close>

definition renumber :: "'n instruction list \<Rightarrow> 'n instruction list" where
  "renumber ins = map (\<lambda>(i, x). x\<lparr>address := i\<rparr>) (enumerate 0 ins)"

definition updateInstructionAddresses :: "'n CodeGenerationResult \<Rightarrow> 'n CodeGenerationResult" where
  "updateInstructionAddresses r = r\<lparr>instructions := renumber (instructions r)\<rparr>"

definition optimizeInstructions :: "'n CodeGenerator \<Rightarrow> 'n CodeGenerator" where
  "optimizeInstructions g =
     (if \<not> optimizeCode g then g
      else (case peephole_scan 0 (instructions (result g)) False of
              (ins, optimized) \<Rightarrow>
                (let r = (result g)\<lparr>instructions := ins\<rparr>
                 in g\<lparr>result := (if optimized then updateInstructionAddresses r else r)\<rparr>)))"

subsection \<open>The entry point\<close>

text \<open>
  The external symbol table is a Map from names to descriptors; a descriptor is modelled by
  its \<open>type\<close> field. \<open>initializeSymbolTable\<close> numbers the entries of type \<open>variable\<close>.
\<close>

fun initializeSymbolTable ::
    "(string \<times> string) list \<Rightarrow> nat \<Rightarrow> 'n CodeGenerationResult \<Rightarrow> 'n CodeGenerationResult" where
  "initializeSymbolTable [] addr r = r"
| "initializeSymbolTable ((name, info_type) # rest) addr r =
     (if info_type = ''variable'' then initializeSymbolTable rest (addr + 1) (addVariable name addr r)
      else initializeSymbolTable rest addr r)"

definition generateProgramEntry :: "'n CodeGenerator \<Rightarrow> 'n CodeGenerator" where
  "generateProgramEntry g = emit PUSH (OpNumber 0) comment_program_entry g"

definition generateProgramExit :: "'n CodeGenerator \<Rightarrow> 'n CodeGenerator" where
  "generateProgramExit g = emit HALT OpNull comment_program_exit g"

text \<open>The generator as \<open>generate\<close> has it when it calls \<open>generateNode(ast)\<close>.\<close>

definition generate_start ::
    "'n CodeGenerator \<Rightarrow> (string \<times> string) list option \<Rightarrow> 'n CodeGenerator" where
  "generate_start this symbols =
     generateProgramEntry
       (this\<lparr>result :=
               (case symbols of
                  None \<Rightarrow> new_CodeGenerationResult
                | Some entries \<Rightarrow> initializeSymbolTable entries 0 new_CodeGenerationResult),
             labelCounter := 0\<rparr>)"

text \<open>
  \<open>generate\<close>: the \<open>try\<close> block in order, and the \<open>catch\<close> block for a thrown error. It
  returns \<open>this.result\<close>; the model returns the generator, whose \<open>result\<close> it is.
\<close>

definition generate ::
    "'n host \<Rightarrow> 'n CodeGenerator \<Rightarrow> 'n node \<Rightarrow> (string \<times> string) list option \<Rightarrow> 'n CodeGenerator" where
  "generate h this ast symbols =
     (case generateNode h ast (generate_start this symbols) of
        (Some error_message, g) \<Rightarrow>
          g\<lparr>result := (result g)
              \<lparr>gen_errors := gen_errors (result g) @
                 [\<lparr>dtype = ''generation_error'', message = error_message\<rparr>],
               gen_success := False\<rparr>\<rparr>
      | (None, g) \<Rightarrow>
          (let g1 = generateProgramExit g;
               g2 = g1\<lparr>result := generateAssembly h (result g1)\<rparr>;
               g3 = (if optimizeCode g2 then optimizeInstructions g2 else g2)
           in g3\<lparr>result := (result g3)\<lparr>gen_success := True\<rparr>\<rparr>))"

section \<open>Vocabulary of the properties\<close>

text \<open>
  The number the passes read from a literal node, \<open>parseFloat(node.value)\<close>, and the host's
  evaluation of \<open>left operator right\<close> for the five operators the folder supports.
\<close>

fun literal_number :: "'n host \<Rightarrow> 'n node \<Rightarrow> 'n option" where
  "literal_number h (NumericLiteral p v) = Some (parseFloat h v)"
| "literal_number h node = None"

definition host_apply :: "'n host \<Rightarrow> string \<Rightarrow> 'n \<Rightarrow> 'n \<Rightarrow> 'n" where
  "host_apply h operator l r =
     (if operator = ''+'' then num_add h l r
      else if operator = ''-'' then num_sub h l r
      else if operator = ''*'' then num_mul h l r
      else if operator = ''/'' then num_div h l r
      else num_mod h l r)"


text \<open>
  Two example trees for the driver: \<open>(2 * 3) + (y - 0)\<close>, which the first round turns into
  \<open>6 + y\<close> and the second leaves alone, and a program that states \<open>x + y\<close> twice, in
  which the detector finds the repeated key in every round.
\<close>

definition converged_example :: "int node" where
  "converged_example =
     BinaryExpression None ''+''
       (BinaryExpression None ''*'' (NumericLiteral None ''2'') (NumericLiteral None ''3''))
       (BinaryExpression None ''-'' (Identifier None ''y'') (NumericLiteral None ''0''))"

definition repeated_example :: "int node" where
  "repeated_example =
     Program None
       [ExpressionStatement None
          (BinaryExpression None ''+'' (Identifier None ''x'') (Identifier None ''y'')),
        ExpressionStatement None
          (BinaryExpression None ''+'' (Identifier None ''x'') (Identifier None ''y''))]"

text \<open>
  The peephole pass as the specification words it, by recursion on the stream: an
  instruction that is \<open>PUSH\<close> and immediately followed by \<open>POP\<close> is deleted together with
  that \<open>POP\<close>, and the scan goes on with the instruction that now stands in its place;
  any other instruction is kept. It is compared with the index loop of the source.
\<close>

fun peephole_spec :: "'n instruction list \<Rightarrow> 'n instruction list" where
  "peephole_spec (x # y # zs) =
     (if opcode x = PUSH \<and> opcode y = POP then peephole_spec zs else x # peephole_spec (y # zs))"
| "peephole_spec [x] = [x]"
| "peephole_spec [] = []"

section \<open>Facts about the code generator\<close>








lemma initializeSymbolTable_keeps:
  "instructions (initializeSymbolTable es a r) = instructions r \<and>
   assembly (initializeSymbolTable es a r) = assembly r \<and>
   gen_errors (initializeSymbolTable es a r) = gen_errors r"
  by (induction es a r rule: initializeSymbolTable.induct) (simp_all add: addVariable_def)

lemma generate_start_fields:
  "assembly (result (generate_start this symbols)) = []"
  "gen_errors (result (generate_start this symbols)) = []"
  "instructions (result (generate_start this symbols)) =
     [\<lparr>address = 0, opcode = PUSH, operand = OpNumber 0, comment = comment_program_entry\<rparr>]"
  by (simp_all add: generate_start_def generateProgramEntry_def emit_def addInstruction_def
      initializeSymbolTable_keeps new_CodeGenerationResult_def split: option.splits)


subsection \<open>The peephole scan\<close>

lemma fst_peephole_scan: "fst (peephole_scan i ins f) = take i ins @ peephole_spec (drop i ins)"
proof (induction i ins f rule: peephole_scan.induct)
  case (1 i ins optimized)
  show ?case
  proof (cases "i + 1 < length ins")
    case False
    then have "length (drop i ins) \<le> 1" by simp
    then have "peephole_spec (drop i ins) = drop i ins"
      by (cases "drop i ins" rule: peephole_spec.cases) simp_all
    then show ?thesis using False by (subst peephole_scan.simps) simp
  next
    case True
    then obtain x y zs where d: "drop i ins = x # y # zs"
      by (metis Cons_nth_drop_Suc Suc_eq_plus1 Suc_lessD)
    have x: "x = ins ! i" and y: "y = ins ! (i + 1)"
      using d True by (metis nth_via_drop, metis Cons_nth_drop_Suc Suc_eq_plus1 Suc_lessD list.inject nth_via_drop)
    have zs: "zs = drop (i + 2) ins"
      using d by (metis add_2_eq_Suc' drop_Suc drop_drop list.sel(3) tl_drop)
    show ?thesis
    proof (cases "opcode (ins ! i) = PUSH \<and> opcode (ins ! (i + 1)) = POP")
      case pair: True
      have "fst (peephole_scan i ins optimized) = fst (peephole_scan i (take i ins @ drop (i + 2) ins) True)"
        using True pair by (subst peephole_scan.simps) simp
      also have "\<dots> = take i (take i ins @ drop (i + 2) ins) @ peephole_spec (drop i (take i ins @ drop (i + 2) ins))"
        using "1.IH"(1) True pair by simp
      also have "\<dots> = take i ins @ peephole_spec zs"
        using True zs by simp
      finally show ?thesis using d pair x y by simp
    next
      case nopair: False
      have "fst (peephole_scan i ins optimized) = fst (peephole_scan (i + 1) ins optimized)"
        using True nopair by (subst peephole_scan.simps) auto
      also have "\<dots> = take (i + 1) ins @ peephole_spec (drop (i + 1) ins)"
        using "1.IH"(2) True nopair by simp
      also have "\<dots> = take i ins @ x # peephole_spec (y # zs)"
        using d True by (metis Suc_eq_plus1 Suc_lessD append.assoc append_Cons append_Nil drop_Suc list.sel(3) take_Suc_conv_app_nth tl_drop x)
      finally show ?thesis using d nopair x y by auto
    qed
  qed
qed

lemma length_peephole_spec: "length (peephole_spec xs) \<le> length xs"
  by (induction xs rule: peephole_spec.induct) auto

lemma peephole_spec_pair:
  "opcode a = PUSH \<Longrightarrow> opcode b = POP \<Longrightarrow> peephole_spec (pre @ a # b # post) = peephole_spec pre @ peephole_spec post"
  by (induction pre rule: peephole_spec.induct) auto

lemma snd_peephole_scan:
  "snd (peephole_scan i ins f) = (f \<or> length (fst (peephole_scan i ins f)) < length ins)"
proof (induction i ins f rule: peephole_scan.induct)
  case (1 i ins optimized)
  show ?case
  proof (cases "i + 1 < length ins")
    case False
    then show ?thesis by (subst (1 2) peephole_scan.simps) simp
  next
    case True
    show ?thesis
    proof (cases "opcode (ins ! i) = PUSH \<and> opcode (ins ! (i + 1)) = POP")
      case pair: True
      let ?ins = "take i ins @ drop (i + 2) ins"
      have "length (fst (peephole_scan i ?ins True)) \<le> length ?ins"
        unfolding fst_peephole_scan using length_peephole_spec [of "drop i ?ins"]
        by (metis append_take_drop_id length_append add_le_cancel_left)
      moreover have "length ?ins < length ins" using True by simp
      ultimately show ?thesis
        using True pair "1.IH"(1) by (subst (1 2) peephole_scan.simps) simp
    next
      case False
      then show ?thesis
        using True "1.IH"(2) by (subst (1 2) peephole_scan.simps) auto
    qed
  qed
qed

lemma length_renumber: "length (renumber ins) = length ins"
  by (simp add: renumber_def)

lemma renumber_addresses: "map address (renumber ins) = [0..<length ins]"
  by (rule nth_equalityI) (simp_all add: renumber_def nth_enumerate_eq)

lemma peephole_spec_no_pair:
  "\<forall>j. Suc j < length xs \<longrightarrow> \<not> (opcode (xs ! j) = PUSH \<and> opcode (xs ! Suc j) = POP) \<Longrightarrow>
   peephole_spec xs = xs"
proof (induction xs rule: peephole_spec.induct)
  case (1 x y zs)
  have np: "\<not> (opcode x = PUSH \<and> opcode y = POP)"
    using "1.prems" [rule_format, of 0] by simp
  have "\<forall>j. Suc j < length (y # zs) \<longrightarrow>
          \<not> (opcode ((y # zs) ! j) = PUSH \<and> opcode ((y # zs) ! Suc j) = POP)"
  proof (intro allI impI)
    fix j assume "Suc j < length (y # zs)"
    then show "\<not> (opcode ((y # zs) ! j) = PUSH \<and> opcode ((y # zs) ! Suc j) = POP)"
      using "1.prems" [rule_format, of "Suc j"] by simp
  qed
  then show ?case using "1.IH"(2) np by auto
qed simp_all

lemma peephole_spec_keeps_others:
  "filter (\<lambda>i. opcode i \<noteq> PUSH \<and> opcode i \<noteq> POP) (peephole_spec xs) =
   filter (\<lambda>i. opcode i \<noteq> PUSH \<and> opcode i \<noteq> POP) xs"
  by (induction xs rule: peephole_spec.induct) simp_all

lemma peephole_spec_pairs: "\<exists>k. length (peephole_spec xs) + 2 * k = length xs"
proof (induction xs rule: peephole_spec.induct)
  case (1 x y zs)
  show ?case
  proof (cases "opcode x = PUSH \<and> opcode y = POP")
    case True
    from "1.IH"(1) [OF True] obtain k where "length (peephole_spec zs) + 2 * k = length zs" by blast
    then have "length (peephole_spec (x # y # zs)) + 2 * Suc k = length (x # y # zs)"
      using True by simp
    then show ?thesis by blast
  next
    case False
    from "1.IH"(2) [OF False] obtain k where
      "length (peephole_spec (y # zs)) + 2 * k = length (y # zs)" by blast
    then have "length (peephole_spec (x # y # zs)) + 2 * k = length (x # y # zs)"
      using False by auto
    then show ?thesis by blast
  qed
next
  case 3
  show ?case by simp
next
  case (2 v)
  show ?case by simp
qed

lemma peephole_spec_origin:
  "m < length (peephole_spec xs) \<Longrightarrow>
   \<exists>k. m + 2 * k < length xs \<and> peephole_spec xs ! m = xs ! (m + 2 * k)"
proof (induction xs arbitrary: m rule: peephole_spec.induct)
  case (1 x y zs)
  show ?case
  proof (cases "opcode x = PUSH \<and> opcode y = POP")
    case True
    then have "m < length (peephole_spec zs)" using "1.prems" by simp
    from "1.IH"(1) [OF True this] obtain k where
      k: "m + 2 * k < length zs" "peephole_spec zs ! m = zs ! (m + 2 * k)" by blast
    have "m + 2 * Suc k < length (x # y # zs) \<and>
          peephole_spec (x # y # zs) ! m = (x # y # zs) ! (m + 2 * Suc k)"
      using True k by simp
    then show ?thesis by blast
  next
    case False
    show ?thesis
    proof (cases m)
      case 0
      have "m + 2 * 0 < length (x # y # zs) \<and>
            peephole_spec (x # y # zs) ! m = (x # y # zs) ! (m + 2 * 0)"
        using False 0 by auto
      then show ?thesis by blast
    next
      case (Suc m')
      then have "m' < length (peephole_spec (y # zs))" using "1.prems" False by simp
      from "1.IH"(2) [OF False this] obtain k where
        k: "m' + 2 * k < length (y # zs)" "peephole_spec (y # zs) ! m' = (y # zs) ! (m' + 2 * k)"
        by blast
      have "m + 2 * k < length (x # y # zs) \<and>
            peephole_spec (x # y # zs) ! m = (x # y # zs) ! (m + 2 * k)"
        using False Suc k by auto
      then show ?thesis by blast
    qed
  qed
next
  case 3
  then show ?case by simp
next
  case (2 v)
  then have "m + 2 * 0 < length [v] \<and> peephole_spec [v] ! m = [v] ! (m + 2 * 0)" by simp
  then show ?case by blast
qed

lemma renumber_nth: "m < length ins \<Longrightarrow> renumber ins ! m = (ins ! m)\<lparr>address := m\<rparr>"
  by (simp add: renumber_def nth_enumerate_eq)

lemma renumber_keeps:
  "map (\<lambda>i. (opcode i, operand i, comment i)) (filter (\<lambda>i. Q (opcode i)) (renumber ins)) =
   map (\<lambda>i. (opcode i, operand i, comment i)) (filter (\<lambda>i. Q (opcode i)) ins)"
proof -
  have "map (\<lambda>i. (opcode i, operand i, comment i))
          (filter (\<lambda>i. Q (opcode i)) (map (\<lambda>(i, x). x\<lparr>address := i\<rparr>) (enumerate n ins))) =
        map (\<lambda>i. (opcode i, operand i, comment i)) (filter (\<lambda>i. Q (opcode i)) ins)" for n
    by (induction ins arbitrary: n) simp_all
  then show ?thesis by (simp add: renumber_def)
qed



section \<open>Facts about the child visit\<close>

subsection \<open>Children left as they are\<close>

lemma mapS_id:
  "(\<And>x s. x \<in> set xs \<Longrightarrow> fst (f x s) = x) \<Longrightarrow> fst (mapS f xs s) = xs"
  by (induction xs arbitrary: s) (auto simp: split_beta)

lemma optS_id:
  "(\<And>x s. a = Some x \<Longrightarrow> fst (f x s) = x) \<Longrightarrow> fst (optS f a s) = a"
  by (cases a) (auto simp: split_beta)

lemma declS_id:
  "(\<And>x s. snd d = Some x \<Longrightarrow> fst (f x s) = x) \<Longrightarrow> fst (declS f d s) = d"
  by (cases d) (auto simp: split_beta optS_id)

lemma in_child_nodes_decl:
  "d \<in> set ds \<Longrightarrow> snd d = Some x \<Longrightarrow> x \<in> set (child_nodes (VariableDeclaration p ds))"
  by force

lemma each_child_id:
  assumes "\<And>c s. c \<in> set (child_nodes n) \<Longrightarrow> fst (f c s) = c"
  shows "fst (each_child f n s) = n"
proof (cases n)
  case (VariableDeclaration p ds)
  have "fst (mapS (declS f) ds s) = ds"
  proof (rule mapS_id, rule declS_id, rule assms)
    fix d x assume "d \<in> set ds" and "snd d = Some x"
    then show "x \<in> set (child_nodes n)"
      unfolding VariableDeclaration by (rule in_child_nodes_decl)
  qed
  then show ?thesis by (simp add: VariableDeclaration split_beta)
qed (use assms in \<open>auto simp: split_beta mapS_id optS_id\<close>)

subsection \<open>Relations kept along the visit\<close>

lemma mapS_rel:
  assumes "\<And>s. R s s" and "\<And>s t u. R s t \<Longrightarrow> R t u \<Longrightarrow> R s u"
    and "\<And>x s. x \<in> set xs \<Longrightarrow> R s (snd (f x s))"
  shows "R s (snd (mapS f xs s))"
  using assms(3)
proof (induction xs arbitrary: s)
  case Nil
  show ?case by (simp add: assms(1))
next
  case (Cons x xs)
  have "R s (snd (f x s))" by (rule Cons.prems) simp
  moreover have "R (snd (f x s)) (snd (mapS f xs (snd (f x s))))"
    by (rule Cons.IH, rule Cons.prems) simp
  ultimately show ?case by (auto simp: split_beta intro: assms(2))
qed

lemma optS_rel:
  assumes "\<And>s. R s s" and "\<And>x s. a = Some x \<Longrightarrow> R s (snd (f x s))"
  shows "R s (snd (optS f a s))"
  using assms by (cases a) (auto simp: split_beta)

lemma declS_rel:
  assumes "\<And>s. R s s" and "\<And>x s. snd d = Some x \<Longrightarrow> R s (snd (f x s))"
  shows "R s (snd (declS f d s))"
  using assms by (cases d) (auto simp: split_beta intro: optS_rel)

lemma each_child_rel:
  assumes refl: "\<And>s. R s s" and trans: "\<And>s t u. R s t \<Longrightarrow> R t u \<Longrightarrow> R s u"
    and step: "\<And>c s. c \<in> set (child_nodes n) \<Longrightarrow> R s (snd (f c s))"
  shows "R s (snd (each_child f n s))"
proof -
  have list: "R s (snd (mapS f xs s))" if "set xs \<subseteq> set (child_nodes n)" for xs s
  proof (rule mapS_rel [where R = R])
    show "R s s" for s by (rule refl)
    show "R s u" if "R s t" "R t u" for s t u using that by (rule trans)
    show "R s (snd (f x s))" if "x \<in> set xs" for x s
      by (rule step) (use that \<open>set xs \<subseteq> set (child_nodes n)\<close> in auto)
  qed
  have opt: "R s (snd (optS f a s))" if "\<And>x. a = Some x \<Longrightarrow> x \<in> set (child_nodes n)" for a s
  proof (rule optS_rel [where R = R])
    show "R s s" for s by (rule refl)
    show "R s (snd (f x s))" if "a = Some x" for x s
      by (rule step) (use that \<open>\<And>x. a = Some x \<Longrightarrow> x \<in> set (child_nodes n)\<close> in auto)
  qed
  have two: "R s (snd (f b (snd (f a s))))"
    if "a \<in> set (child_nodes n)" "b \<in> set (child_nodes n)" for a b s
    by (rule trans [OF step step]) (use that in auto)
  show ?thesis
  proof (cases n)
    case (Program p body)
    then show ?thesis using list [of body s] by (simp add: split_beta)
  next
    case (VariableDeclaration p ds)
    have "R s (snd (mapS (declS f) ds s))"
    proof (rule mapS_rel [where R = R])
      show "R s s" for s by (rule refl)
      show "R s u" if "R s t" "R t u" for s t u using that by (rule trans)
      show "R s (snd (declS f d s))" if d: "d \<in> set ds" for d s
      proof (rule declS_rel [where R = R])
        show "R s s" for s by (rule refl)
        show "R s (snd (f x s))" if "snd d = Some x" for x s
          by (rule step, unfold VariableDeclaration, rule in_child_nodes_decl [OF d that])
      qed
    qed
    then show ?thesis by (simp add: VariableDeclaration split_beta)
  next
    case (AssignmentExpression p l r)
    then show ?thesis using two [of l r s] by (simp add: split_beta)
  next
    case (BinaryExpression p operator l r)
    then show ?thesis using two [of l r s] by (simp add: split_beta)
  next
    case (UnaryExpression p operator a)
    then show ?thesis using step [of a s] by (simp add: split_beta)
  next
    case (Literal p v)
    then show ?thesis by (simp add: refl)
  next
    case (NumericLiteral p v)
    then show ?thesis by (simp add: refl)
  next
    case (Identifier p name)
    then show ?thesis by (simp add: refl)
  next
    case (IfStatement p t c a)
    have "R s (snd (optS f a (snd (f c (snd (f t s))))))"
      by (rule trans [OF two opt]) (simp_all add: IfStatement)
    then show ?thesis by (simp add: IfStatement split_beta)
  next
    case (WhileStatement p t b)
    then show ?thesis using two [of t b s] by (simp add: split_beta)
  next
    case (BlockStatement p body)
    then show ?thesis using list [of body s] by (simp add: split_beta)
  next
    case (ExpressionStatement p e)
    then show ?thesis using step [of e s] by (simp add: split_beta)
  next
    case (PrintStatement p e)
    then show ?thesis using step [of e s] by (simp add: split_beta)
  next
    case (Other p tag cs)
    then show ?thesis using list [of cs s] by (simp add: split_beta)
  qed
qed

subsection \<open>Runs that count nothing\<close>

text \<open>
  A state transformer is \<open>steady\<close> when it never lowers the counter \<open>cnt\<close>. It is \<open>quiet\<close>
  for a value \<open>a\<close> when, whenever one run of it leaves the counter as it was, every run
  from a state related by \<open>S\<close> returns \<open>a\<close>, leaves its state in relation \<open>K\<close> to the one it
  started from, and keeps the two runs related by \<open>S\<close>.
\<close>

definition steady :: "('s \<Rightarrow> nat) \<Rightarrow> ('s \<Rightarrow> 'a \<times> 's) \<Rightarrow> bool" where
  "steady cnt g \<longleftrightarrow> (\<forall>s. cnt s \<le> cnt (snd (g s)))"

definition quiet ::
    "('s \<Rightarrow> nat) \<Rightarrow> ('s \<Rightarrow> 's \<Rightarrow> bool) \<Rightarrow> ('s \<Rightarrow> 's \<Rightarrow> bool) \<Rightarrow> ('s \<Rightarrow> 'a \<times> 's) \<Rightarrow> 'a \<Rightarrow> bool" where
  "quiet cnt S K g a \<longleftrightarrow>
     (\<forall>s s'. cnt (snd (g s)) = cnt s \<longrightarrow> S s s' \<longrightarrow>
        fst (g s') = a \<and> K s' (snd (g s')) \<and> S (snd (g s)) (snd (g s')))"

definition frame :: "('s \<Rightarrow> 's \<Rightarrow> bool) \<Rightarrow> ('s \<Rightarrow> 's \<Rightarrow> bool) \<Rightarrow> bool" where
  "frame S K \<longleftrightarrow> (\<forall>s. S s s) \<and> (\<forall>s. K s s) \<and> (\<forall>s t u. K s t \<longrightarrow> K t u \<longrightarrow> K s u)"

definition bindS :: "('s \<Rightarrow> 'a \<times> 's) \<Rightarrow> ('a \<Rightarrow> 's \<Rightarrow> 'b \<times> 's) \<Rightarrow> 's \<Rightarrow> 'b \<times> 's" where
  "bindS g k = (\<lambda>s. case g s of (x, s1) \<Rightarrow> k x s1)"

definition retS :: "'a \<Rightarrow> 's \<Rightarrow> 'a \<times> 's" where
  "retS a = (\<lambda>s. (a, s))"

lemma steady_retS: "steady cnt (retS a)"
  by (simp add: steady_def retS_def)

lemma steady_bindS_at:
  "steady cnt g \<Longrightarrow> (\<And>s. steady cnt (k (fst (g s)))) \<Longrightarrow> steady cnt (bindS g k)"
  unfolding steady_def bindS_def by (auto simp: split_beta intro: order_trans)

lemma steady_bindS: "steady cnt g \<Longrightarrow> (\<And>x. steady cnt (k x)) \<Longrightarrow> steady cnt (bindS g k)"
  by (rule steady_bindS_at)

lemma quiet_retS: "frame S K \<Longrightarrow> quiet cnt S K (retS a) a"
  by (simp add: quiet_def retS_def frame_def)

lemma quiet_bindS_at:
  assumes fr: "frame S K"
    and g: "quiet cnt S K g a" and k: "quiet cnt S K (k a) b"
    and sg: "steady cnt g" and sk: "\<And>s. steady cnt (k (fst (g s)))"
  shows "quiet cnt S K (bindS g k) b"
  unfolding quiet_def
proof (intro allI impI)
  fix s s'
  assume same: "cnt (snd (bindS g k s)) = cnt s" and rel: "S s s'"
  obtain x s1 where gs: "g s = (x, s1)" by (cases "g s")
  have "cnt s \<le> cnt s1" using sg gs by (auto simp: steady_def dest: spec [of _ s])
  moreover have "cnt s1 \<le> cnt (snd (k x s1))" using sk [of s] gs by (simp add: steady_def)
  moreover have end_: "cnt (snd (k x s1)) = cnt s" using same gs by (simp add: bindS_def)
  ultimately have c1: "cnt s1 = cnt s" by simp
  then have g1: "cnt (snd (g s)) = cnt s" using gs by simp
  have "S s s" using fr by (simp add: frame_def)
  with g g1 have "fst (g s) = a" unfolding quiet_def by blast
  then have xa: "x = a" using gs by simp
  from g g1 rel have g': "fst (g s') = a" "K s' (snd (g s'))" "S (snd (g s)) (snd (g s'))"
    unfolding quiet_def by blast+
  obtain s1' where gs': "g s' = (a, s1')" using g'(1) by (cases "g s'") simp
  have k1: "cnt (snd (k a s1)) = cnt s1" using end_ c1 xa by simp
  have "S s1 s1'" using g'(3) gs gs' by simp
  with k k1 have k': "fst (k a s1') = b" "K s1' (snd (k a s1'))" "S (snd (k a s1)) (snd (k a s1'))"
    unfolding quiet_def by blast+
  have "K s' s1'" using g'(2) gs' by simp
  with k'(2) have "K s' (snd (k a s1'))" using fr unfolding frame_def by blast
  then show "fst (bindS g k s') = b \<and> K s' (snd (bindS g k s')) \<and>
             S (snd (bindS g k s)) (snd (bindS g k s'))"
    using k' gs gs' xa by (simp add: bindS_def)
qed

lemma quiet_bindS:
  assumes "frame S K"
    and "quiet cnt S K g a" and "quiet cnt S K (k a) b"
    and "steady cnt g" and "\<And>x. steady cnt (k x)"
  shows "quiet cnt S K (bindS g k) b"
  by (rule quiet_bindS_at [where k = k, OF assms(1,2,3,4)]) (rule assms(5))

lemma mapS_bindS:
  "mapS f (x # xs) = bindS (f x) (\<lambda>y. bindS (mapS f xs) (\<lambda>ys. retS (y # ys)))"
  by (simp add: fun_eq_iff bindS_def retS_def split_beta)

lemma steady_mapS: "(\<And>x. x \<in> set xs \<Longrightarrow> steady cnt (f x)) \<Longrightarrow> steady cnt (mapS f xs)"
proof (induction xs)
  case Nil
  show ?case by (simp add: steady_def)
next
  case (Cons x xs)
  show ?case unfolding mapS_bindS
    by (intro steady_bindS steady_retS Cons.IH Cons.prems) simp_all
qed

lemma quiet_mapS:
  assumes "frame S K"
    and "\<And>x. x \<in> set xs \<Longrightarrow> steady cnt (f x)"
    and "\<And>x. x \<in> set xs \<Longrightarrow> quiet cnt S K (f x) x"
  shows "quiet cnt S K (mapS f xs) xs"
  using assms(2,3)
proof (induction xs)
  case Nil
  have "mapS f [] = retS []" by (simp add: fun_eq_iff retS_def)
  then show ?case by (simp add: quiet_retS assms(1))
next
  case (Cons x xs)
  have 1: "quiet cnt S K (f x) x" and 2: "steady cnt (f x)"
    by (simp_all add: Cons.prems)
  have 3: "quiet cnt S K (mapS f xs) xs" and 4: "steady cnt (mapS f xs)"
    by (simp_all add: Cons.IH Cons.prems steady_mapS)
  have 5: "quiet cnt S K (bindS (mapS f xs) (\<lambda>ys. retS (x # ys))) (x # xs)"
    by (rule quiet_bindS [OF assms(1) 3 quiet_retS [OF assms(1)] 4 steady_retS])
  show ?case unfolding mapS_bindS
    by (rule quiet_bindS [where k = "\<lambda>y. bindS (mapS f xs) (\<lambda>ys. retS (y # ys))", OF assms(1) 1 5 2])
       (intro steady_bindS 4 steady_retS)
qed

lemma optS_bindS:
  "optS f None = retS None"
  "optS f (Some x) = bindS (f x) (\<lambda>y. retS (Some y))"
  by (simp_all add: fun_eq_iff bindS_def retS_def split_beta)

lemma steady_optS: "(\<And>x. a = Some x \<Longrightarrow> steady cnt (f x)) \<Longrightarrow> steady cnt (optS f a)"
  by (cases a) (simp_all add: optS_bindS steady_retS steady_bindS)

lemma quiet_optS:
  assumes "frame S K"
    and "\<And>x. a = Some x \<Longrightarrow> steady cnt (f x)"
    and "\<And>x. a = Some x \<Longrightarrow> quiet cnt S K (f x) x"
  shows "quiet cnt S K (optS f a) a"
proof (cases a)
  case None
  then show ?thesis by (simp add: optS_bindS quiet_retS assms(1))
next
  case (Some x)
  show ?thesis unfolding Some optS_bindS
    by (rule quiet_bindS [OF assms(1) assms(3) [OF Some] quiet_retS [OF assms(1)]
          assms(2) [OF Some] steady_retS])
qed

lemma declS_bindS: "declS f (name, init) = bindS (optS f init) (\<lambda>i. retS (name, i))"
  by (simp add: fun_eq_iff bindS_def retS_def split_beta)

lemma steady_declS: "(\<And>x. snd d = Some x \<Longrightarrow> steady cnt (f x)) \<Longrightarrow> steady cnt (declS f d)"
  by (cases d) (simp add: declS_bindS steady_retS steady_bindS steady_optS)

lemma quiet_declS:
  assumes "frame S K"
    and "\<And>x. snd d = Some x \<Longrightarrow> steady cnt (f x)"
    and "\<And>x. snd d = Some x \<Longrightarrow> quiet cnt S K (f x) x"
  shows "quiet cnt S K (declS f d) d"
proof (cases d)
  case (Pair name init)
  have o: "quiet cnt S K (optS f init) init" and so: "steady cnt (optS f init)"
    using assms(2,3) by (auto simp: Pair intro!: quiet_optS steady_optS assms(1))
  show ?thesis unfolding Pair declS_bindS
    by (rule quiet_bindS [OF assms(1) o quiet_retS [OF assms(1)] so steady_retS])
qed

lemma quiet_bind1:
  assumes "frame S K" and "quiet cnt S K g a" and "steady cnt g"
  shows "quiet cnt S K (bindS g (\<lambda>x. retS (F x))) (F a)"
  by (rule quiet_bindS [where k = "\<lambda>x. retS (F x)", OF assms(1,2) quiet_retS [OF assms(1)]
        assms(3) steady_retS])

lemma quiet_bind2:
  assumes "frame S K" and "quiet cnt S K g a" and "steady cnt g"
    and "quiet cnt S K g2 b" and "steady cnt g2"
  shows "quiet cnt S K (bindS g (\<lambda>x. bindS g2 (\<lambda>y. retS (F x y)))) (F a b)"
  by (rule quiet_bindS [where k = "\<lambda>x. bindS g2 (\<lambda>y. retS (F x y))", OF assms(1,2)
        quiet_bind1 [OF assms(1,4,5)] assms(3)])
     (intro steady_bindS steady_retS assms(5))

lemma quiet_bind3:
  assumes "frame S K" and "quiet cnt S K g a" and "steady cnt g"
    and "quiet cnt S K g2 b" and "steady cnt g2"
    and "quiet cnt S K g3 c" and "steady cnt g3"
  shows "quiet cnt S K (bindS g (\<lambda>x. bindS g2 (\<lambda>y. bindS g3 (\<lambda>z. retS (F x y z))))) (F a b c)"
  by (rule quiet_bindS [where k = "\<lambda>x. bindS g2 (\<lambda>y. bindS g3 (\<lambda>z. retS (F x y z)))",
        OF assms(1,2) quiet_bind2 [OF assms(1,4,5,6,7)] assms(3)])
     (intro steady_bindS steady_retS assms(5,7))

lemma each_child_bindS:
  "each_child f (Program p body) = bindS (mapS f body) (\<lambda>b. retS (Program p b))"
  "each_child f (VariableDeclaration p ds) =
     bindS (mapS (declS f) ds) (\<lambda>d. retS (VariableDeclaration p d))"
  "each_child f (AssignmentExpression p l r) =
     bindS (f l) (\<lambda>x. bindS (f r) (\<lambda>y. retS (AssignmentExpression p x y)))"
  "each_child f (BinaryExpression p operator l r) =
     bindS (f l) (\<lambda>x. bindS (f r) (\<lambda>y. retS (BinaryExpression p operator x y)))"
  "each_child f (UnaryExpression p operator a) =
     bindS (f a) (\<lambda>x. retS (UnaryExpression p operator x))"
  "each_child f (Literal p v) = retS (Literal p v)"
  "each_child f (NumericLiteral p w) = retS (NumericLiteral p w)"
  "each_child f (Identifier p name) = retS (Identifier p name)"
  "each_child f (IfStatement p t c alt) =
     bindS (f t) (\<lambda>x. bindS (f c) (\<lambda>y. bindS (optS f alt) (\<lambda>z. retS (IfStatement p x y z))))"
  "each_child f (WhileStatement p t b) =
     bindS (f t) (\<lambda>x. bindS (f b) (\<lambda>y. retS (WhileStatement p x y)))"
  "each_child f (BlockStatement p body) = bindS (mapS f body) (\<lambda>b. retS (BlockStatement p b))"
  "each_child f (ExpressionStatement p e) = bindS (f e) (\<lambda>x. retS (ExpressionStatement p x))"
  "each_child f (PrintStatement p e) = bindS (f e) (\<lambda>x. retS (PrintStatement p x))"
  "each_child f (Other p tag cs) = bindS (mapS f cs) (\<lambda>b. retS (Other p tag b))"
  by (simp_all add: fun_eq_iff bindS_def retS_def split_beta)

lemma steady_each_child:
  assumes "\<And>c. c \<in> set (child_nodes n) \<Longrightarrow> steady cnt (f c)"
  shows "steady cnt (each_child f n)"
proof -
  have "cnt s \<le> cnt (snd (each_child f n s))" for s
    by (rule each_child_rel [where R = "\<lambda>s t. cnt s \<le> cnt t"])
       (use assms in \<open>auto simp: steady_def\<close>)
  then show ?thesis by (simp add: steady_def)
qed

lemma quiet_each_child:
  assumes fr: "frame S K"
    and st: "\<And>c. c \<in> set (child_nodes n) \<Longrightarrow> steady cnt (f c)"
    and qu: "\<And>c. c \<in> set (child_nodes n) \<Longrightarrow> quiet cnt S K (f c) c"
  shows "quiet cnt S K (each_child f n) n"
proof -
  have list: "quiet cnt S K (mapS f xs) xs" "steady cnt (mapS f xs)"
    if "set xs \<subseteq> set (child_nodes n)" for xs
    using that by (auto intro!: quiet_mapS steady_mapS fr st qu)
  show ?thesis
  proof (cases n)
    case (Program p body)
    show ?thesis unfolding Program each_child_bindS
      by (rule quiet_bind1 [OF fr list]) (simp_all add: Program)
  next
    case (VariableDeclaration p ds)
    have d: "steady cnt (declS f d)" "quiet cnt S K (declS f d) d" if "d \<in> set ds" for d
      using that
      by (auto intro!: steady_declS quiet_declS fr st qu in_child_nodes_decl
          simp: VariableDeclaration simp del: child_nodes.simps)
    show ?thesis unfolding VariableDeclaration each_child_bindS
      by (rule quiet_bind1 [OF fr]) (auto intro!: quiet_mapS steady_mapS fr d)
  next
    case (AssignmentExpression p l r)
    show ?thesis unfolding AssignmentExpression each_child_bindS
      by (rule quiet_bind2 [OF fr]) (simp_all add: st qu AssignmentExpression)
  next
    case (BinaryExpression p operator l r)
    show ?thesis unfolding BinaryExpression each_child_bindS
      by (rule quiet_bind2 [OF fr]) (simp_all add: st qu BinaryExpression)
  next
    case (UnaryExpression p operator a)
    show ?thesis unfolding UnaryExpression each_child_bindS
      by (rule quiet_bind1 [OF fr]) (simp_all add: st qu UnaryExpression)
  next
    case (Literal p v)
    show ?thesis unfolding Literal each_child_bindS by (rule quiet_retS [OF fr])
  next
    case (NumericLiteral p v)
    show ?thesis unfolding NumericLiteral each_child_bindS by (rule quiet_retS [OF fr])
  next
    case (Identifier p name)
    show ?thesis unfolding Identifier each_child_bindS by (rule quiet_retS [OF fr])
  next
    case (IfStatement p t c alt)
    have o: "quiet cnt S K (optS f alt) alt" "steady cnt (optS f alt)"
      by (auto intro!: quiet_optS steady_optS fr st qu simp: IfStatement)
    show ?thesis unfolding IfStatement each_child_bindS
      by (rule quiet_bind3 [OF fr _ _ _ _ o]) (simp_all add: st qu IfStatement)
  next
    case (WhileStatement p t b)
    show ?thesis unfolding WhileStatement each_child_bindS
      by (rule quiet_bind2 [OF fr]) (simp_all add: st qu WhileStatement)
  next
    case (BlockStatement p body)
    show ?thesis unfolding BlockStatement each_child_bindS
      by (rule quiet_bind1 [OF fr list]) (simp_all add: BlockStatement)
  next
    case (ExpressionStatement p e)
    show ?thesis unfolding ExpressionStatement each_child_bindS
      by (rule quiet_bind1 [OF fr]) (simp_all add: st qu ExpressionStatement)
  next
    case (PrintStatement p e)
    show ?thesis unfolding PrintStatement each_child_bindS
      by (rule quiet_bind1 [OF fr]) (simp_all add: st qu PrintStatement)
  next
    case (Other p tag cs)
    show ?thesis unfolding Other each_child_bindS
      by (rule quiet_bind1 [OF fr list]) (simp_all add: Other)
  qed
qed

section \<open>Facts about the rewrite passes\<close>

text \<open>
  Two pass states have the \<open>same_log\<close> when they agree on everything but the warnings: the
  log of rewrites, the counters, the errors and the optimizer's own count.
\<close>

definition same_log :: "'n pass_state \<Rightarrow> 'n pass_state \<Rightarrow> bool" where
  "same_log s t \<longleftrightarrow>
     snd t = snd s \<and> optimizations (fst t) = optimizations (fst s) \<and>
     statistics (fst t) = statistics (fst s) \<and>
     totalOptimizations (fst t) = totalOptimizations (fst s) \<and>
     errors (fst t) = errors (fst s)"

definition any_states :: "'s \<Rightarrow> 's \<Rightarrow> bool" where
  "any_states s t \<longleftrightarrow> True"

lemma frame_pass: "frame any_states same_log"
  by (simp add: frame_def any_states_def same_log_def)

lemma steady_record_rewrite [simp]: "snd (record_rewrite c d n st) = snd st + 1"
  by (simp add: record_rewrite_def)

subsection \<open>Constant folder\<close>

lemma constantFolding_node_steady: "steady snd (constantFolding_node h m)"
  unfolding steady_def
proof
  fix s show "snd s \<le> snd (snd (constantFolding_node h m s))"
    by (induction h m s rule: constantFolding_node.induct) (simp_all add: Let_def folded_def)
qed

lemma constantFolding_node_quiet: "quiet snd any_states same_log (constantFolding_node h m) m"
  unfolding quiet_def
proof (intro allI impI)
  fix s s' :: "'a pass_state"
  assume "snd (snd (constantFolding_node h m s)) = snd s"
  then have "fst (constantFolding_node h m s') = m \<and> same_log s' (snd (constantFolding_node h m s'))"
    by (induction h m s rule: constantFolding_node.induct)
       (simp_all add: Let_def folded_def same_log_def addWarning_def split: if_splits)
  then show "fst (constantFolding_node h m s') = m \<and>
             same_log s' (snd (constantFolding_node h m s')) \<and>
             any_states (snd (constantFolding_node h m s)) (snd (constantFolding_node h m s'))"
    by (simp add: any_states_def)
qed

lemma constantFolding_bindS:
  "constantFolding h n = bindS (each_child (constantFolding h) n) (constantFolding_node h)"
  by (rule ext) (simp add: bindS_def)

lemma constantFolding_steady_quiet:
  "steady snd (constantFolding h n) \<and> quiet snd any_states same_log (constantFolding h n) n"
proof -
  fix s :: "'a pass_state"
  show ?thesis
  proof (induction h n s rule: constantFolding.induct)
    case (1 h node st)
    have st: "steady snd (each_child (constantFolding h) node)"
      by (rule steady_each_child) (simp add: 1)
    have qu: "quiet snd any_states same_log (each_child (constantFolding h) node) node"
      by (rule quiet_each_child [OF frame_pass]) (simp_all add: 1)
    show ?case unfolding constantFolding_bindS [of h node]
      by (intro conjI steady_bindS st constantFolding_node_steady
          quiet_bindS [OF frame_pass qu constantFolding_node_quiet st]
          constantFolding_node_steady)
  qed
qed

subsection \<open>Algebraic simplifier\<close>

lemma algebraicSimplification_node_steady: "steady snd (algebraicSimplification_node h m)"
  unfolding steady_def
proof
  fix s show "snd s \<le> snd (snd (algebraicSimplification_node h m s))"
    by (induction h m s rule: algebraicSimplification_node.induct)
       (simp_all add: Let_def simplified_def)
qed

lemma algebraicSimplification_node_quiet:
  "quiet snd any_states same_log (algebraicSimplification_node h m) m"
  unfolding quiet_def
proof (intro allI impI)
  fix s s' :: "'a pass_state"
  assume "snd (snd (algebraicSimplification_node h m s)) = snd s"
  then have "fst (algebraicSimplification_node h m s') = m \<and>
             same_log s' (snd (algebraicSimplification_node h m s'))"
    by (induction h m s rule: algebraicSimplification_node.induct)
       (simp_all add: Let_def simplified_def same_log_def split: if_splits)
  then show "fst (algebraicSimplification_node h m s') = m \<and>
             same_log s' (snd (algebraicSimplification_node h m s')) \<and>
             any_states (snd (algebraicSimplification_node h m s))
               (snd (algebraicSimplification_node h m s'))"
    by (simp add: any_states_def)
qed

lemma algebraicSimplification_bindS:
  "algebraicSimplification h n =
     bindS (each_child (algebraicSimplification h) n) (algebraicSimplification_node h)"
  by (rule ext) (simp add: bindS_def)

lemma algebraicSimplification_steady_quiet:
  "steady snd (algebraicSimplification h n) \<and>
   quiet snd any_states same_log (algebraicSimplification h n) n"
proof -
  fix s :: "'a pass_state"
  show ?thesis
  proof (induction h n s rule: algebraicSimplification.induct)
    case (1 h node st)
    have st: "steady snd (each_child (algebraicSimplification h) node)"
      by (rule steady_each_child) (simp add: 1)
    have qu: "quiet snd any_states same_log (each_child (algebraicSimplification h) node) node"
      by (rule quiet_each_child [OF frame_pass]) (simp_all add: 1)
    show ?case unfolding algebraicSimplification_bindS [of h node]
      by (intro conjI steady_bindS st algebraicSimplification_node_steady
          quiet_bindS [OF frame_pass qu algebraicSimplification_node_quiet st]
          algebraicSimplification_node_steady)
  qed
qed

subsection \<open>Common-subexpression detector\<close>

definition cse_count :: "'n cse_state \<Rightarrow> nat" where
  "cse_count s = snd (snd s)"

definition same_map :: "'n cse_state \<Rightarrow> 'n cse_state \<Rightarrow> bool" where
  "same_map s t \<longleftrightarrow> fst s = fst t"

definition cse_same_log :: "'n cse_state \<Rightarrow> 'n cse_state \<Rightarrow> bool" where
  "cse_same_log s t \<longleftrightarrow> same_log (snd s) (snd t)"

lemma frame_cse: "frame same_map cse_same_log"
  by (simp add: frame_def same_map_def cse_same_log_def same_log_def)

lemma findCommonExpressions_node_id: "fst (findCommonExpressions_node m s) = m"
  by (induction m s rule: findCommonExpressions_node.induct) (simp_all add: Let_def)

lemma findCommonExpressions_node_steady: "steady cse_count (findCommonExpressions_node m)"
  unfolding steady_def
proof
  fix s show "cse_count s \<le> cse_count (snd (findCommonExpressions_node m s))"
    by (induction m s rule: findCommonExpressions_node.induct)
       (simp_all add: Let_def cse_count_def)
qed

lemma findCommonExpressions_node_quiet:
  "quiet cse_count same_map cse_same_log (findCommonExpressions_node m) m"
  unfolding quiet_def
proof (intro allI impI)
  fix s s' :: "'a cse_state"
  assume "cse_count (snd (findCommonExpressions_node m s)) = cse_count s" and "same_map s s'"
  then show "fst (findCommonExpressions_node m s') = m \<and>
             cse_same_log s' (snd (findCommonExpressions_node m s')) \<and>
             same_map (snd (findCommonExpressions_node m s)) (snd (findCommonExpressions_node m s'))"
    by (induction m s rule: findCommonExpressions_node.induct; cases s')
       (simp_all add: Let_def cse_count_def same_map_def cse_same_log_def same_log_def
          split: if_splits)
qed

lemma findCommonExpressions_bindS:
  "findCommonExpressions n = bindS (each_child findCommonExpressions n) findCommonExpressions_node"
  by (rule ext) (simp add: bindS_def)

lemma findCommonExpressions_id: "fst (findCommonExpressions n s) = n"
proof (induction n s rule: findCommonExpressions.induct)
  case (1 currentNode s)
  have "fst (each_child findCommonExpressions currentNode s) = currentNode"
    by (rule each_child_id, rule 1, assumption)
  then show ?case
    unfolding findCommonExpressions_bindS [of currentNode]
    by (simp add: bindS_def split_beta findCommonExpressions_node_id)
qed

lemma findCommonExpressions_steady_quiet:
  "steady cse_count (findCommonExpressions n) \<and>
   quiet cse_count same_map cse_same_log (findCommonExpressions n) n"
proof -
  fix s :: "'a cse_state"
  show ?thesis
  proof (induction n s rule: findCommonExpressions.induct)
    case (1 node st)
    have st: "steady cse_count (each_child findCommonExpressions node)"
      by (rule steady_each_child) (simp add: 1)
    have qu: "quiet cse_count same_map cse_same_log (each_child findCommonExpressions node) node"
      by (rule quiet_each_child [OF frame_cse]) (simp_all add: 1)
    show ?case unfolding findCommonExpressions_bindS [of node]
      by (intro conjI steady_bindS st findCommonExpressions_node_steady
          quiet_bindS [OF frame_cse qu findCommonExpressions_node_quiet st]
          findCommonExpressions_node_steady)
  qed
qed

lemma commonSubexpressionElimination_steady_quiet:
  "steady snd (commonSubexpressionElimination n) \<and>
   quiet snd any_states same_log (commonSubexpressionElimination n) n"
proof
  show "steady snd (commonSubexpressionElimination n)"
    using findCommonExpressions_steady_quiet [of n]
    by (auto simp: steady_def commonSubexpressionElimination_def cse_count_def split_beta
        dest: spec [of _ "([], s)" for s])
  show "quiet snd any_states same_log (commonSubexpressionElimination n) n"
    unfolding quiet_def
  proof (intro allI impI)
    fix s s' :: "'a pass_state"
    assume "snd (snd (commonSubexpressionElimination n s)) = snd s"
    then have "cse_count (snd (findCommonExpressions n ([], s))) = cse_count ([], s)"
      by (simp add: commonSubexpressionElimination_def cse_count_def split_beta)
    moreover have "same_map ([], s) ([], s')" by (simp add: same_map_def)
    ultimately have "cse_same_log ([], s') (snd (findCommonExpressions n ([], s')))"
      using findCommonExpressions_steady_quiet [of n] unfolding quiet_def by blast
    then show "fst (commonSubexpressionElimination n s') = n \<and>
               same_log s' (snd (commonSubexpressionElimination n s')) \<and>
               any_states (snd (commonSubexpressionElimination n s))
                 (snd (commonSubexpressionElimination n s'))"
      using findCommonExpressions_id [of n "([], s')"]
      by (simp add: commonSubexpressionElimination_def cse_same_log_def any_states_def split_beta)
  qed
qed

subsection \<open>Dead-code eliminator\<close>

lemma filter_dead_steady: "snd s \<le> snd (snd (filter_dead body s))"
proof (induction body arbitrary: s)
  case Nil
  show ?case by simp
next
  case (Cons stmt rest)
  show ?case
    using Cons [of s]
      Cons [of "record_rewrite deadCodeEliminations ''Removed dead code: standalone numeric literal'' stmt s"]
    by (simp add: split_beta)
qed

lemma filter_dead_counts:
  "\<exists>stmt \<in> set body. is_standalone_literal stmt \<Longrightarrow> snd s < snd (snd (filter_dead body s))"
proof (induction body arbitrary: s)
  case Nil
  then show ?case by simp
next
  case (Cons stmt rest)
  show ?case
  proof (cases "is_standalone_literal stmt")
    case True
    then show ?thesis
      using filter_dead_steady [of "record_rewrite deadCodeEliminations
              ''Removed dead code: standalone numeric literal'' stmt s" rest]
      by simp
  next
    case False
    then show ?thesis using Cons by (simp add: split_beta)
  qed
qed

lemma filter_dead_nothing:
  "\<forall>stmt \<in> set body. \<not> is_standalone_literal stmt \<Longrightarrow> filter_dead body s = (body, s)"
  by (induction body arbitrary: s) simp_all

lemma deadCodeElimination_Program_bindS:
  "deadCodeElimination (Program p body) =
     bindS (filter_dead body)
       (\<lambda>kept. bindS (mapS deadCodeElimination kept) (\<lambda>b. retS (Program p b)))"
  by (rule ext) (simp add: bindS_def retS_def split_beta)

lemma deadCodeElimination_other:
  "(\<And>p body. n \<noteq> Program p body) \<Longrightarrow> deadCodeElimination n = each_child deadCodeElimination n"
  by (cases n) (auto simp: fun_eq_iff)

lemma deadCodeElimination_steady_quiet:
  "steady snd (deadCodeElimination n) \<and> quiet snd any_states same_log (deadCodeElimination n) n"
proof (induction n rule: measure_induct_rule [where f = size])
  case (less n)
  show ?case
  proof (cases "\<exists>p body. n = Program p body")
    case False
    then have eq: "deadCodeElimination n = each_child deadCodeElimination n"
      by (intro deadCodeElimination_other) blast
    have ch: "steady snd (deadCodeElimination c) \<and>
              quiet snd any_states same_log (deadCodeElimination c) c"
      if "c \<in> set (child_nodes n)" for c
      by (rule less) (rule size_child_nodes [OF that])
    show ?thesis unfolding eq
      by (intro conjI steady_each_child quiet_each_child [OF frame_pass]) (simp_all add: ch)
  next
    case True
    then obtain p body where n: "n = Program p body" by blast
    have el: "steady snd (deadCodeElimination x) \<and>
              quiet snd any_states same_log (deadCodeElimination x) x"
      if "x \<in> set body" for x
      by (rule less) (use that in \<open>auto simp: n dest: size_list_estimation' [where f = size]\<close>)
    have kept: "set (fst (filter_dead body s)) \<subseteq> set body" for s
      by (auto simp: fst_filter_dead)
    have fs: "steady snd (filter_dead body)"
      by (simp add: steady_def filter_dead_steady)
    have st: "steady snd (deadCodeElimination n)"
      unfolding n deadCodeElimination_Program_bindS
    proof (rule steady_bindS_at [OF fs])
      fix s
      show "steady snd (bindS (mapS deadCodeElimination (fst (filter_dead body s)))
                          (\<lambda>b. retS (Program p b)))"
        by (intro steady_bindS steady_retS steady_mapS) (use kept [of s] el in blast)
    qed
    have qu: "quiet snd any_states same_log (deadCodeElimination n) n"
    proof (cases "\<exists>stmt \<in> set body. is_standalone_literal stmt")
      case True
      have "snd s < snd (snd (deadCodeElimination n s))" for s
      proof -
        have "snd s < snd (snd (filter_dead body s))" by (rule filter_dead_counts [OF True])
        also have "\<dots> \<le> snd (snd (deadCodeElimination n s))"
        proof -
          have "steady snd (mapS deadCodeElimination (fst (filter_dead body s)))"
            by (rule steady_mapS) (use kept [of s] el in blast)
          then have "snd (snd (filter_dead body s)) \<le>
                     snd (snd (mapS deadCodeElimination (fst (filter_dead body s))
                                 (snd (filter_dead body s))))"
            unfolding steady_def by blast
          then show ?thesis by (simp add: n split_beta)
        qed
        finally show ?thesis .
      qed
      then have "snd (snd (deadCodeElimination n s)) \<noteq> snd s" for s
        by (metis less_irrefl)
      then show ?thesis unfolding quiet_def by blast
    next
      case False
      then have "deadCodeElimination n =
                 bindS (mapS deadCodeElimination body) (\<lambda>b. retS (Program p b))"
        by (auto simp: n fun_eq_iff bindS_def retS_def filter_dead_nothing split_beta)
      moreover have "quiet snd any_states same_log
                       (bindS (mapS deadCodeElimination body) (\<lambda>b. retS (Program p b)))
                       (Program p body)"
        by (rule quiet_bind1 [OF frame_pass])
           (auto intro!: quiet_mapS steady_mapS frame_pass simp: el)
      ultimately show ?thesis by (simp add: n)
    qed
    show ?thesis using st qu by simp
  qed
qed

subsection \<open>One round\<close>

lemma performOptimizationPass_steady_quiet:
  "steady snd (performOptimizationPass h os ast) \<and>
   quiet snd any_states same_log (performOptimizationPass h os ast) ast"
proof -
  let ?cf = "\<lambda>a. if enableConstantFolding os then constantFolding h a else retS a"
  let ?as = "\<lambda>a. if enableAlgebraicSimplification os then algebraicSimplification h a else retS a"
  let ?cse = "\<lambda>a. if enableCommonSubexpressionElimination os then commonSubexpressionElimination a
                   else retS a"
  let ?dce = "\<lambda>a. if enableDeadCodeElimination os then deadCodeElimination a else retS a"
  have eq: "performOptimizationPass h os ast =
              bindS (?cf ast) (\<lambda>a1. bindS (?as a1) (\<lambda>a2. bindS (?cse a2) ?dce))"
    by (rule ext) (simp add: performOptimizationPass_def bindS_def retS_def split_beta)
  have cf: "steady snd (?cf a)" "quiet snd any_states same_log (?cf a) a" for a
    using constantFolding_steady_quiet [of h a]
    by (simp_all add: steady_retS quiet_retS frame_pass)
  have as: "steady snd (?as a)" "quiet snd any_states same_log (?as a) a" for a
    using algebraicSimplification_steady_quiet [of h a]
    by (simp_all add: steady_retS quiet_retS frame_pass)
  have cse: "steady snd (?cse a)" "quiet snd any_states same_log (?cse a) a" for a
    using commonSubexpressionElimination_steady_quiet [of a]
    by (simp_all add: steady_retS quiet_retS frame_pass)
  have dce: "steady snd (?dce a)" "quiet snd any_states same_log (?dce a) a" for a
    using deadCodeElimination_steady_quiet [of a]
    by (simp_all add: steady_retS quiet_retS frame_pass)
  have s3: "steady snd (bindS (?cse a) ?dce)" for a
    by (intro steady_bindS cse dce)
  have q3: "quiet snd any_states same_log (bindS (?cse a) ?dce) a" for a
    by (rule quiet_bindS [where k = ?dce, OF frame_pass cse(2) dce(2) cse(1) dce(1)])
  have s2: "steady snd (bindS (?as a) (\<lambda>a2. bindS (?cse a2) ?dce))" for a
    by (intro steady_bindS as s3)
  have q2: "quiet snd any_states same_log (bindS (?as a) (\<lambda>a2. bindS (?cse a2) ?dce)) a" for a
    by (rule quiet_bindS [where k = "\<lambda>a2. bindS (?cse a2) ?dce", OF frame_pass as(2) q3 as(1) s3])
  show ?thesis unfolding eq
    by (intro conjI steady_bindS cf s2
        quiet_bindS [where k = "\<lambda>a1. bindS (?as a1) (\<lambda>a2. bindS (?cse a2) ?dce)",
          OF frame_pass cf(2) q2 cf(1) s2])
qed

subsection \<open>The driver's loop\<close>

lemma optimize_loop_last_round:
  "optimize_loop h os ast b p st = (ast', b', p', st') \<Longrightarrow> b \<Longrightarrow> \<not> b' \<Longrightarrow>
   \<exists>u sa. performOptimizationPass h os u sa = (ast', st') \<and> snd st' \<le> snd sa"
proof (induction h os ast b p st rule: optimize_loop.induct)
  case (1 h os ast hasChanges pass st)
  show ?case
  proof (cases "pass < maxOptimizationPasses os")
    case False
    then show ?thesis using "1.prems" by (subst (asm) optimize_loop.simps) simp
  next
    case True
    obtain a1 s1 where r: "performOptimizationPass h os ast st = (a1, s1)"
      by (cases "performOptimizationPass h os ast st")
    have step: "optimize_loop h os a1 (snd st < snd s1) (pass + 1) s1 = (ast', b', p', st')"
      using "1.prems" True r by (subst (asm) optimize_loop.simps) (simp add: Let_def)
    show ?thesis
    proof (cases "snd st < snd s1")
      case True
      show ?thesis
        by (rule "1.IH" [OF _ refl r [symmetric] _ True "1.prems"(3)])
           (use "1.prems"(2) \<open>pass < maxOptimizationPasses os\<close> step True in simp_all)
    next
      case False
      then have "ast' = a1 \<and> st' = s1"
        using step by (subst (asm) optimize_loop.simps) simp
      then show ?thesis using r False by (intro exI [of _ ast] exI [of _ st]) simp
    qed
  qed
qed

lemma optimize_loop_quiet_round:
  assumes "fst (performOptimizationPass h os ast s') = ast"
    and "snd (snd (performOptimizationPass h os ast s')) = snd s'"
    and "0 < maxOptimizationPasses os"
  shows "optimize_loop h os ast True 0 s' =
           (ast, False, 1, snd (performOptimizationPass h os ast s'))"
proof -
  obtain a1 s1 where r: "performOptimizationPass h os ast s' = (a1, s1)"
    by (cases "performOptimizationPass h os ast s'")
  have "optimize_loop h os ast True 0 s' = optimize_loop h os a1 (snd s' < snd s1) 1 s1"
    using assms(3) r by (subst optimize_loop.simps) (simp add: Let_def)
  also have "\<dots> = (a1, False, 1, s1)"
    using assms(2) r by (subst optimize_loop.simps) simp
  finally show ?thesis using assms(1) r by simp
qed

lemma optimize_loop_rounds_positive:
  "optimize_loop h os ast True 0 st = (ast', False, p', st') \<Longrightarrow> 0 < maxOptimizationPasses os"
  by (subst (asm) optimize_loop.simps) (auto split: if_splits)

subsection \<open>What the detector may change\<close>

definition detector_step :: "'n pass_state \<Rightarrow> 'n pass_state \<Rightarrow> bool" where
  "detector_step s t \<longleftrightarrow>
     warnings (fst t) = warnings (fst s) \<and> errors (fst t) = errors (fst s) \<and>
     prefix (optimizations (fst s)) (optimizations (fst t)) \<and>
     statistics (fst t) constantFoldings = statistics (fst s) constantFoldings \<and>
     statistics (fst t) algebraicSimplifications = statistics (fst s) algebraicSimplifications \<and>
     statistics (fst t) deadCodeEliminations = statistics (fst s) deadCodeEliminations \<and>
     statistics (fst s) commonSubexpressionEliminations
       \<le> statistics (fst t) commonSubexpressionEliminations \<and>
     snd s \<le> snd t"

lemma findCommonExpressions_node_step:
  "detector_step (snd s) (snd (snd (findCommonExpressions_node m s)))"
  by (induction m s rule: findCommonExpressions_node.induct)
     (simp_all add: Let_def detector_step_def record_rewrite_def addOptimization_def)

lemma detector_step_refl: "detector_step s s"
  by (simp add: detector_step_def)

lemma detector_step_trans: "detector_step s t \<Longrightarrow> detector_step t u \<Longrightarrow> detector_step s u"
  by (auto simp: detector_step_def)

lemma findCommonExpressions_step:
  "detector_step (snd s) (snd (snd (findCommonExpressions n s)))"
proof (induction n s rule: findCommonExpressions.induct)
  case (1 currentNode s)
  let ?mid = "each_child findCommonExpressions currentNode s"
  have a: "detector_step (snd s) (snd (snd ?mid))"
  proof (rule each_child_rel [where R = "\<lambda>s t. detector_step (snd s) (snd t)"])
    show "detector_step (snd s) (snd s)" for s :: "'a cse_state"
      by (rule detector_step_refl)
    show "detector_step (snd s) (snd u)"
      if "detector_step (snd s) (snd t)" "detector_step (snd t) (snd u)"
      for s t u :: "'a cse_state"
      using that by (rule detector_step_trans)
    show "detector_step (snd s) (snd (snd (findCommonExpressions c s)))"
      if "c \<in> set (child_nodes currentNode)" for c s
      by (rule 1 [OF that])
  qed
  have b: "detector_step (snd (snd ?mid))
             (snd (snd (findCommonExpressions_node (fst ?mid) (snd ?mid))))"
    by (rule findCommonExpressions_node_step)
  have "findCommonExpressions currentNode s = findCommonExpressions_node (fst ?mid) (snd ?mid)"
    unfolding findCommonExpressions_bindS [of currentNode] by (simp add: bindS_def split_beta)
  then show ?case using detector_step_trans [OF a b] by simp
qed

section \<open>Properties of the constant folder\<close>

text \<open>
  C1. A binary expression whose operands are both numeric literals is folded: for
  \<open>+\<close>, \<open>-\<close>, \<open>*\<close>, and for \<open>/\<close> and \<open>%\<close> with a right operand that is not zero, the result is
  a new numeric literal at the expression's position whose text is the host's rendering of
  the host's value of \<open>left operator right\<close>, so that its number is that value whenever the
  host reads its own rendering back; one fold is counted and no warning is recorded. For
  \<open>/\<close> and \<open>%\<close> with a zero right operand the node is returned as it was, nothing is counted
  or logged, and one warning is appended.
\<close>

theorem constantFolding_numeric_literals:
  "let node = BinaryExpression p operator (NumericLiteral pl a) (NumericLiteral pr b);
       l = parseFloat h a; r = parseFloat h b; v = host_apply h operator l r
   in case constantFolding h node (res, count) of
        (node', (res', count')) \<Rightarrow>
          operator \<in> {''+'', ''-'', ''*'', ''/'', ''%''} \<longrightarrow>
          (if (operator = ''/'' \<or> operator = ''%'') \<and> strict_eq h r (zero h)
           then node' = node \<and> count' = count \<and> optimizations res' = optimizations res \<and>
                warnings res' = warnings res @
                  [if operator = ''/'' then ''Division by zero detected during constant folding''
                   else ''Modulo by zero detected during constant folding'']
           else node' = NumericLiteral p (toString h v) \<and>
                (parseFloat h (toString h v) = v \<longrightarrow> literal_number h node' = Some v) \<and>
                count' = count + 1 \<and>
                statistics res' constantFoldings = statistics res constantFoldings + 1 \<and>
                warnings res' = warnings res)"
  by (auto simp: Let_def host_apply_def folded_def record_rewrite_def addOptimization_def
      addWarning_def)

theorem constantFolding_numeric_literals_witness:
  "fst (constantFolding int_host
          (BinaryExpression None ''+'' (NumericLiteral None ''5'') (NumericLiteral None ''3''))
          (new_OptimizationResult, 0)) = NumericLiteral None ''8'' \<and>
   literal_number int_host (NumericLiteral None ''8'') = Some 8 \<and>
   fst (constantFolding int_host
          (BinaryExpression None ''/'' (NumericLiteral None ''10'') (NumericLiteral None ''0''))
          (new_OptimizationResult, 0))
     = BinaryExpression None ''/'' (NumericLiteral None ''10'') (NumericLiteral None ''0'')"
  using constantFolding_numeric_literals [where p = None and operator = "''+''" and pl = None
      and a = "''5''" and pr = None and b = "''3''" and h = int_host
      and res = new_OptimizationResult and count = 0]
    constantFolding_numeric_literals [where p = None and operator = "''/''" and pl = None
      and a = "''10''" and pr = None and b = "''0''" and h = int_host
      and res = new_OptimizationResult and count = 0]
  by (simp add: Let_def host_apply_def int_host_def parse_int_def parse_nat_def digit_value_def
      show_int_def show_nat.simps digit_char_def split_beta)


section \<open>Properties of the code generator\<close>

text \<open>
  C4. Generating code for an identifier whose name is absent from the variable-address
  table (the table as \<open>generate\<close> has built it when it reaches the node) yields an outcome
  with \<open>success = false\<close> and a single error record, of type \<open>generation_error\<close>, whose
  message contains the name.
\<close>

theorem undefined_identifier_fails:
  assumes "map_of (symbolTable (result (generate_start this symbols))) name = None"
  shows "let r = result (generate h this (Identifier p name) symbols)
         in \<not> gen_success r \<and>
            gen_errors r =
              [\<lparr>dtype = ''generation_error'', message = msg_undefined_variable @ name\<rparr>] \<and>
            sublist name (message (hd (gen_errors r)))"
  using assms
  by (simp add: generate_def generate_start_fields Let_def sublist_appendI)

theorem undefined_identifier_fails_witness:
  "\<not> gen_success (result (generate int_host (new_CodeGenerator True) (Identifier None ''q'') None)) \<and>
   map message (gen_errors (result (generate int_host (new_CodeGenerator True) (Identifier None ''q'') None)))
     = [msg_undefined_variable @ ''q'']"
proof -
  have "map_of (symbolTable (result (generate_start (new_CodeGenerator True :: int CodeGenerator) None))) ''q'' = None"
    by (simp add: generate_start_def generateProgramEntry_def emit_def addInstruction_def
        new_CodeGenerator_def new_CodeGenerationResult_def)
  from undefined_identifier_fails [OF this, of int_host None]
  show ?thesis by (simp add: Let_def)
qed

text \<open>
  C9. A node tagged \<open>NumericLiteral\<close> falls to the \<open>default\<close> branch of the dispatch: no
  instruction is emitted and one \<open>unsupported_node\<close> warning is recorded. Hence the literal
  the constant folder puts in place of \<open>a + b\<close> generates no \<open>LOAD\<close>: on its own it emits
  nothing, and as an expression statement only the \<open>POP\<close>.
\<close>

theorem NumericLiteral_generates_nothing:
  "generateNode h (NumericLiteral p v) g = (None, warn_unsupported (NumericLiteral p v) g) \<and>
   instructions (result (warn_unsupported (NumericLiteral p v) g)) = instructions (result g) \<and>
   gen_warnings (result (warn_unsupported (NumericLiteral p v) g)) =
     gen_warnings (result g) @
       [\<lparr>dtype = ''unsupported_node'', message = msg_unsupported_node @ ''NumericLiteral''\<rparr>] \<and>
   (let foldedNode =
          fst (constantFolding h
                 (BinaryExpression q ''+'' (NumericLiteral pl a) (NumericLiteral pr b)) st)
    in instructions (result (snd (generateNode h foldedNode g))) = instructions (result g) \<and>
       instructions (result (snd (generateNode h (ExpressionStatement s foldedNode) g))) =
         instructions (result g) @
           [\<lparr>address = length (instructions (result g)), opcode = POP, operand = OpNull,
             comment = comment_pop\<rparr>])"
  by (simp add: warn_unsupported_def folded_def emit_def addInstruction_def Let_def)

text \<open>
  C5 does not hold of the code. For the declaration \<open>x = 10\<close> generated without a symbol
  table, and for \<open>x = 10, y = 20\<close> likewise, the run succeeds without an error, the
  variable-address table is still empty afterwards, so no address has been assigned, and each
  \<open>STORE\<close> emitted for a declared name carries the null operand instead of an address: the
  lookup of the missing entry yields \<open>undefined\<close>, which the default parameter of
  \<open>addInstruction\<close> turns into \<open>null\<close>.
\<close>

theorem declaration_without_entry_assigns_no_address:
  "(let r = result (generate int_host (new_CodeGenerator True)
                (VariableDeclaration None [(''x'', Some (Literal None (LNumber 10)))]) None)
    in gen_success r \<and> gen_errors r = [] \<and> symbolTable r = [] \<and>
       map (\<lambda>i. (address i, opcode i, operand i)) (instructions r) =
         [(0, PUSH, OpNumber 0), (1, LOAD, OpLiteral (LNumber 10)), (2, STORE, OpNull),
          (3, HALT, OpNull)]) \<and>
   (let r = result (generate int_host (new_CodeGenerator True)
                (VariableDeclaration None [(''x'', Some (Literal None (LNumber 10))),
                                           (''y'', Some (Literal None (LNumber 20)))]) None)
    in gen_success r \<and> gen_errors r = [] \<and> symbolTable r = [] \<and>
       map (\<lambda>i. (address i, opcode i, operand i)) (instructions r) =
         [(0, PUSH, OpNumber 0), (1, LOAD, OpLiteral (LNumber 10)), (2, STORE, OpNull),
          (3, LOAD, OpLiteral (LNumber 20)), (4, STORE, OpNull), (5, HALT, OpNull)])"
  by (simp add: generate_def generate_start_def generateProgramEntry_def generateProgramExit_def
      emit_def addInstruction_def new_CodeGenerator_def new_CodeGenerationResult_def
      generateAssembly_def optimizeInstructions_def peephole_scan.simps
      address_operand_def literal_operand_def Let_def)




text \<open>
  C2 fails on the code: \<open>generate\<close> renders the assembly text before it runs the peephole
  pass. For a program whose only statement is a call expression the stream is
  \<open>PUSH 0; POP; HALT\<close>; the pass deletes the pair and leaves \<open>HALT\<close> at address 0, while the
  rendering keeps the three lines of the stream before the pass, and so differs from the
  rendering of the instructions the outcome holds.
\<close>

theorem assembly_rendered_before_peephole:
  "(let r = result (generate int_host (new_CodeGenerator True)
                (Program None
                   [ExpressionStatement None (Other None ''CallExpression'' [Identifier None ''f''])])
                None)
    in gen_success r \<and>
       map (\<lambda>i. (address i, opcode i)) (instructions r) = [(0, HALT)] \<and>
       assembly r =
         join_lines
           [asm_header, asm_target, [],
            ''0000: PUSH 0 ; '' @ comment_program_entry,
            ''0001: POP ; '' @ comment_pop,
            ''0002: HALT ; '' @ comment_program_exit] \<and>
       assembly r \<noteq> join_lines (assembly_lines int_host r))"
  by (simp add: generate_def generate_start_def generateProgramEntry_def generateProgramExit_def
      emit_def addInstruction_def new_CodeGenerator_def new_CodeGenerationResult_def
      generateAssembly_def optimizeInstructions_def peephole_scan.simps warn_unsupported_def
      updateInstructionAddresses_def renumber_def enumerate_eq_zip
      assembly_lines_def render_instruction_def padStart4_def show_nat.simps digit_char_def
      comment_program_entry_def comment_pop_def comment_program_exit_def eval_nat_numeral
      Let_def)


section \<open>Properties of the peephole pass\<close>

text \<open>
  C7. When the stream holds a \<open>PUSH\<close> immediately followed by a \<open>POP\<close>, the pass deletes
  both and goes on scanning at the position of the deleted pair: the outcome is the stream
  the specification's scan gives, which is its scan of the instructions before the pair
  followed by its scan of the instructions after it, renumbered. After the pass every
  instruction's address is its index. Instructions are deleted only in pairs, at least this
  one: a surviving instruction at index \<open>m\<close> is the instruction formerly at index
  \<open>m + 2k\<close> for some \<open>k\<close>, unchanged but for its address, and every instruction that is
  neither \<open>PUSH\<close> nor \<open>POP\<close> survives, in order. When the stream holds no other adjacent pair
  before or after this one, the outcome is exactly the instructions before the pair at
  their old indices followed by the instructions after it, each with its index reduced by
  two.
\<close>

theorem peephole_removes_push_pop:
  assumes "optimizeCode g"
    and "instructions (result g) = pre @ a # b # post"
    and "opcode a = PUSH" and "opcode b = POP"
  shows "let ins = instructions (result g);
             ins' = instructions (result (optimizeInstructions g));
             no_pair = (\<lambda>xs. \<forall>j. Suc j < length xs \<longrightarrow>
                          \<not> (opcode (xs ! j) = PUSH \<and> opcode (xs ! Suc j) = POP));
             other = (\<lambda>i. opcode i \<noteq> PUSH \<and> opcode i \<noteq> POP);
             content = (\<lambda>i. (opcode i, operand i, comment i))
         in ins' = renumber (peephole_spec pre @ peephole_spec post) \<and>
            ins' = renumber (peephole_spec ins) \<and>
            map address ins' = [0..<length ins'] \<and>
            (\<exists>k. 0 < k \<and> length ins' + 2 * k = length ins) \<and>
            (\<forall>m < length ins'.
               \<exists>k. m + 2 * k < length ins \<and> ins' ! m = (ins ! (m + 2 * k))\<lparr>address := m\<rparr>) \<and>
            map content (filter other ins') = map content (filter other ins) \<and>
            (no_pair pre \<and> no_pair post \<longrightarrow>
               ins' = renumber (pre @ post) \<and>
               (\<forall>j < length pre. ins' ! j = (pre ! j)\<lparr>address := j\<rparr>) \<and>
               (\<forall>j < length post.
                  ins' ! (length pre + j) = (post ! j)\<lparr>address := length pre + j\<rparr>))"
proof -
  let ?ins = "pre @ a # b # post"
  let ?out = "peephole_spec pre @ peephole_spec post"
  have sp: "peephole_spec ?ins = ?out"
    using assms(3,4) by (simp add: peephole_spec_pair)
  have f: "fst (peephole_scan 0 ?ins False) = ?out"
    by (simp add: fst_peephole_scan sp)
  obtain k1 k2 where k: "length (peephole_spec pre) + 2 * k1 = length pre"
    "length (peephole_spec post) + 2 * k2 = length post"
    using peephole_spec_pairs [of pre] peephole_spec_pairs [of post] by blast
  have len: "length ?out + 2 * Suc (k1 + k2) = length ?ins"
    using k by simp
  then have s: "snd (peephole_scan 0 ?ins False)"
    unfolding snd_peephole_scan f by simp
  have r: "instructions (result (optimizeInstructions g)) = renumber ?out"
    using assms(1,2) f s
    by (simp add: optimizeInstructions_def updateInstructionAddresses_def split_beta Let_def)
  have origin: "\<exists>k. m + 2 * k < length ?ins \<and> renumber ?out ! m = (?ins ! (m + 2 * k))\<lparr>address := m\<rparr>"
    if "m < length (renumber ?out)" for m
  proof -
    have m: "m < length (peephole_spec ?ins)" using that by (simp add: sp length_renumber)
    from peephole_spec_origin [OF m] obtain k where
      "m + 2 * k < length ?ins" "peephole_spec ?ins ! m = ?ins ! (m + 2 * k)" by blast
    then have "m + 2 * k < length ?ins \<and>
               renumber (peephole_spec ?ins) ! m = (?ins ! (m + 2 * k))\<lparr>address := m\<rparr>"
      using m by (simp only: renumber_nth)
    then show ?thesis unfolding sp by blast
  qed
  have others: "map (\<lambda>i. (opcode i, operand i, comment i))
                  (filter (\<lambda>i. opcode i \<noteq> PUSH \<and> opcode i \<noteq> POP) (renumber ?out)) =
                map (\<lambda>i. (opcode i, operand i, comment i))
                  (filter (\<lambda>i. opcode i \<noteq> PUSH \<and> opcode i \<noteq> POP) ?ins)"
    unfolding renumber_keeps [where Q = "\<lambda>c. c \<noteq> PUSH \<and> c \<noteq> POP"] sp [symmetric]
    by (simp only: peephole_spec_keeps_others)
  have single:
    "(\<forall>j. Suc j < length pre \<longrightarrow> \<not> (opcode (pre ! j) = PUSH \<and> opcode (pre ! Suc j) = POP)) \<and>
     (\<forall>j. Suc j < length post \<longrightarrow> \<not> (opcode (post ! j) = PUSH \<and> opcode (post ! Suc j) = POP))
     \<longrightarrow>
       renumber ?out = renumber (pre @ post) \<and>
       (\<forall>j < length pre. renumber ?out ! j = (pre ! j)\<lparr>address := j\<rparr>) \<and>
       (\<forall>j < length post.
          renumber ?out ! (length pre + j) = (post ! j)\<lparr>address := length pre + j\<rparr>)"
  proof (intro impI, elim conjE)
    assume 1: "\<forall>j. Suc j < length pre \<longrightarrow> \<not> (opcode (pre ! j) = PUSH \<and> opcode (pre ! Suc j) = POP)"
      and 2: "\<forall>j. Suc j < length post \<longrightarrow> \<not> (opcode (post ! j) = PUSH \<and> opcode (post ! Suc j) = POP)"
    have e: "?out = pre @ post"
      using peephole_spec_no_pair [OF 1] peephole_spec_no_pair [OF 2] by simp
    show "renumber ?out = renumber (pre @ post) \<and>
          (\<forall>j < length pre. renumber ?out ! j = (pre ! j)\<lparr>address := j\<rparr>) \<and>
          (\<forall>j < length post.
             renumber ?out ! (length pre + j) = (post ! j)\<lparr>address := length pre + j\<rparr>)"
      unfolding e by (simp add: renumber_nth nth_append)
  qed
  have ex: "\<exists>k. 0 < k \<and> length (renumber ?out) + 2 * k = length ?ins"
    using len by (intro exI [of _ "Suc (k1 + k2)"]) (simp add: length_renumber)
  have origin': "\<forall>m < length (renumber ?out).
                   \<exists>k. m + 2 * k < length ?ins \<and>
                       renumber ?out ! m = (?ins ! (m + 2 * k))\<lparr>address := m\<rparr>"
    using origin by blast
  have spec: "renumber ?out = renumber (peephole_spec ?ins)"
    by (simp only: sp)
  have addr: "map address (renumber ?out) = [0..<length (renumber ?out)]"
    by (simp only: renumber_addresses length_renumber)
  show ?thesis
    unfolding Let_def r assms(2)
    by (intro conjI refl spec addr ex origin' others single)
qed

theorem peephole_removes_push_pop_witness:
  "(let i = (\<lambda>opc. \<lparr>address = 7, opcode = opc, operand = OpNull :: int operand, comment = []\<rparr>);
        g = (\<lambda>ins. (new_CodeGenerator True)
              \<lparr>result := new_CodeGenerationResult \<lparr>instructions := ins\<rparr>\<rparr>)
    in map (\<lambda>x. (address x, opcode x))
         (instructions (result (optimizeInstructions
            (g [i LOAD, i PUSH, i POP, i PUSH, i POP, i HALT]))))
         = [(0, LOAD), (1, HALT)] \<and>
       map (\<lambda>x. (address x, opcode x))
         (instructions (result (optimizeInstructions (g [i PUSH, i POP, i POP, i LOAD]))))
         = [(0, POP), (1, LOAD)])"
proof -
  let ?i = "\<lambda>opc. \<lparr>address = 7, opcode = opc, operand = OpNull :: int operand, comment = []\<rparr>"
  let ?g = "\<lambda>ins. (new_CodeGenerator True)
              \<lparr>result := new_CodeGenerationResult \<lparr>instructions := ins\<rparr>\<rparr>"
  have 1: "instructions (result (optimizeInstructions
             (?g [?i LOAD, ?i PUSH, ?i POP, ?i PUSH, ?i POP, ?i HALT]))) =
           renumber (peephole_spec [?i LOAD] @ peephole_spec [?i PUSH, ?i POP, ?i HALT])"
    using peephole_removes_push_pop [where a = "?i PUSH" and b = "?i POP" and pre = "[?i LOAD]"
        and post = "[?i PUSH, ?i POP, ?i HALT]"
        and g = "?g [?i LOAD, ?i PUSH, ?i POP, ?i PUSH, ?i POP, ?i HALT]"]
    by (simp add: Let_def new_CodeGenerator_def new_CodeGenerationResult_def)
  have 2: "instructions (result (optimizeInstructions (?g [?i PUSH, ?i POP, ?i POP, ?i LOAD]))) =
           renumber (peephole_spec [] @ peephole_spec [?i POP, ?i LOAD])"
    using peephole_removes_push_pop [where a = "?i PUSH" and b = "?i POP" and pre = "[]"
        and post = "[?i POP, ?i LOAD]" and g = "?g [?i PUSH, ?i POP, ?i POP, ?i LOAD]"]
    by (simp add: Let_def new_CodeGenerator_def new_CodeGenerationResult_def)
  show ?thesis
    unfolding Let_def 1 2
    by (simp add: renumber_def enumerate_eq_zip upt_rec)
qed

section \<open>Properties of the optimization driver\<close>

text \<open>
  C3, as stated, fails: on a program that states \<open>x + y\<close> twice the first run returns the
  tree as it was, and a second run on that tree counts the repeated key again, three
  times in its three rounds.
\<close>

theorem optimize_twice_counterexample:
  "(case optimize int_host (new_Optimizer default_options) repeated_example of
      (r1, this1) \<Rightarrow>
        optimizedAST r1 = Some repeated_example \<and>
        (case optimize int_host this1 repeated_example of
           (r2, this2) \<Rightarrow>
             totalOptimizations r2 = 3 \<and> statistics r2 commonSubexpressionEliminations = 3))"
  by (simp add: optimize_def optimize_loop.simps performOptimizationPass_def
      commonSubexpressionElimination_def repeated_example_def default_options_def
      new_Optimizer_def new_OptimizationResult_def record_rewrite_def addOptimization_def
      Let_def)

text \<open>
  C3, amended. When the first run ends on a round that counted nothing, a second run on
  the tree it produced reports no change: it makes one round, logs and counts nothing, and
  returns the same tree.
\<close>

theorem optimize_converged_fixed_point:
  assumes "optimize_loop h (opts this) ast True 0 (new_OptimizationResult, optimizationCount this)
             = (ast', False, pass, st)"
  shows "case optimize h this ast of
           (r1, this1) \<Rightarrow>
             optimizedAST r1 = Some ast' \<and>
             (case optimize h this1 ast' of
                (r2, this2) \<Rightarrow>
                  optimizedAST r2 = Some ast' \<and> optimizations r2 = [] \<and>
                  totalOptimizations r2 = 0 \<and>
                  statistics r2 constantFoldings = 0 \<and>
                  statistics r2 algebraicSimplifications = 0 \<and>
                  statistics r2 commonSubexpressionEliminations = 0 \<and>
                  statistics r2 deadCodeEliminations = 0 \<and>
                  optimizationCount this2 = optimizationCount this1 \<and>
                  currentPass this2 = 1)"
proof -
  let ?os = "opts this"
  obtain u sa where last: "performOptimizationPass h ?os u sa = (ast', st)" "snd st \<le> snd sa"
    using optimize_loop_last_round [OF assms] by auto
  have pos: "0 < maxOptimizationPasses ?os"
    by (rule optimize_loop_rounds_positive [OF assms])
  have sq: "steady snd (performOptimizationPass h ?os u)"
    "quiet snd any_states same_log (performOptimizationPass h ?os u) u"
    using performOptimizationPass_steady_quiet [of h ?os u] by simp_all
  have "snd sa \<le> snd (snd (performOptimizationPass h ?os u sa))"
    using sq(1) unfolding steady_def by blast
  then have "snd sa \<le> snd st" using last(1) by simp
  then have same: "snd (snd (performOptimizationPass h ?os u sa)) = snd sa"
    using last by simp
  have q: "fst (performOptimizationPass h ?os u s') = u \<and>
           same_log s' (snd (performOptimizationPass h ?os u s'))" for s'
    using sq(2) same unfolding quiet_def any_states_def by blast
  have u: "ast' = u" using q [of sa] last(1) by simp
  let ?s2 = "(new_OptimizationResult :: 'a OptimizationResult, snd st)"
  let ?t2 = "snd (performOptimizationPass h ?os ast' ?s2)"
  have loop2: "optimize_loop h ?os ast' True 0 ?s2 = (ast', False, 1, ?t2)"
    by (rule optimize_loop_quiet_round) (use q [of ?s2] u pos in \<open>simp_all add: same_log_def\<close>)
  have log2: "same_log ?s2 ?t2" using q [of ?s2] u by simp
  show ?thesis
    using assms loop2 log2
    by (cases st; cases ?t2)
       (simp add: optimize_def same_log_def new_OptimizationResult_def)
qed

theorem optimize_converged_fixed_point_witness:
  "(case optimize int_host (new_Optimizer default_options) converged_example of
      (r1, this1) \<Rightarrow>
        optimizedAST r1 =
          Some (BinaryExpression None ''+'' (NumericLiteral None ''6'') (Identifier None ''y'')) \<and>
        totalOptimizations r1 = 2 \<and>
        (case optimize int_host this1
                (BinaryExpression None ''+'' (NumericLiteral None ''6'') (Identifier None ''y'')) of
           (r2, this2) \<Rightarrow> optimizations r2 = [] \<and> totalOptimizations r2 = 0))"
proof -
  let ?this = "new_Optimizer default_options"
  let ?L = "optimize_loop int_host (opts ?this) converged_example True 0
              (new_OptimizationResult, optimizationCount ?this)"
  let ?out = "BinaryExpression None ''+'' (NumericLiteral None ''6'') (Identifier None ''y'') :: int node"
  have L: "fst ?L = ?out" "fst (snd ?L) = False"
    "totalOptimizations (fst (snd (snd (snd ?L)))) = 2"
    by (simp_all add: optimize_loop.simps performOptimizationPass_def
        commonSubexpressionElimination_def converged_example_def default_options_def
        new_Optimizer_def new_OptimizationResult_def folded_def simplified_def
        record_rewrite_def addOptimization_def
        int_host_def parse_int_def parse_nat_def digit_value_def show_int_def show_nat.simps
        digit_char_def Let_def)
  have "?L = (?out, False, fst (snd (snd ?L)), snd (snd (snd ?L)))"
    using L(1,2) by (metis prod.collapse)
  from optimize_converged_fixed_point [OF this] L(3)
  show ?thesis
    by (auto simp: optimize_def split: prod.splits)
qed

text \<open>
  C6. With \<open>maxOptimizationPasses = 3\<close> the driver makes at least one and at most three
  rounds and returns an outcome with \<open>success = true\<close>, whatever the tree. It makes one round
  when the first counts nothing, two when the first counts something and the second
  nothing, and three when the first two both count something: it stops after the third
  round also when that round still counted. The tree returned is the one the last round
  produced.
\<close>

theorem optimize_round_bound:
  assumes "maxOptimizationPasses (opts this) = 3"
  shows "let s0 = (new_OptimizationResult, optimizationCount this);
             r1 = performOptimizationPass h (opts this) ast s0;
             r2 = performOptimizationPass h (opts this) (fst r1) (snd r1);
             r3 = performOptimizationPass h (opts this) (fst r2) (snd r2);
             changed1 = (snd (snd r1) > snd s0);
             changed2 = (snd (snd r2) > snd (snd r1))
         in case optimize h this ast of
              (r, this') \<Rightarrow>
                success r \<and> 1 \<le> currentPass this' \<and> currentPass this' \<le> 3 \<and>
                currentPass this' = (if changed1 then if changed2 then 3 else 2 else 1) \<and>
                optimizedAST r =
                  Some (if changed1 then if changed2 then fst r3 else fst r2 else fst r1)"
proof -
  let ?os = "opts this"
  let ?s0 = "(new_OptimizationResult :: 'a OptimizationResult, optimizationCount this)"
  obtain a1 s1 where r1: "performOptimizationPass h ?os ast ?s0 = (a1, s1)"
    by (cases "performOptimizationPass h ?os ast ?s0")
  obtain a2 s2 where r2: "performOptimizationPass h ?os a1 s1 = (a2, s2)"
    by (cases "performOptimizationPass h ?os a1 s1")
  obtain a3 s3 where r3: "performOptimizationPass h ?os a2 s2 = (a3, s3)"
    by (cases "performOptimizationPass h ?os a2 s2")
  have m: "maxOptimizationPasses ?os = Suc (Suc (Suc 0))"
    using assms by simp
  have stop: "optimize_loop h ?os a False p s = (a, False, p, s)" for a p s
    by (subst optimize_loop.simps) simp
  have full: "optimize_loop h ?os a b (Suc (Suc (Suc 0))) s = (a, b, 3, s)" for a b s
    by (subst optimize_loop.simps) (simp add: m)
  have l2: "optimize_loop h ?os a2 True (Suc (Suc 0)) s2 = (a3, snd s2 < snd s3, 3, s3)"
    using r3 by (subst optimize_loop.simps) (simp add: m Let_def full)
  have l1: "optimize_loop h ?os a1 True (Suc 0) s1 =
              (if snd s1 < snd s2 then (a3, snd s2 < snd s3, 3, s3) else (a2, False, 2, s2))"
    using r2 by (subst optimize_loop.simps) (simp add: m Let_def l2 stop)
  have l0: "optimize_loop h ?os ast True 0 ?s0 =
              (if optimizationCount this < snd s1
               then if snd s1 < snd s2 then (a3, snd s2 < snd s3, 3, s3) else (a2, False, 2, s2)
               else (a1, False, 1, s1))"
    using r1 by (subst optimize_loop.simps) (simp add: m Let_def l1 stop)
  show ?thesis
    by (simp add: optimize_def l0 r1 r2 r3 Let_def split_beta)
qed

theorem optimize_round_bound_witness:
  "(case optimize int_host (new_Optimizer default_options) repeated_example of
      (r, this') \<Rightarrow> success r \<and> currentPass this' = 3 \<and> totalOptimizations r = 3)"
proof -
  have m: "maxOptimizationPasses (opts (new_Optimizer default_options)) = 3"
    by (simp add: new_Optimizer_def default_options_def)
  have "totalOptimizations (fst (optimize int_host (new_Optimizer default_options) repeated_example)) = 3"
    by (simp add: optimize_def optimize_loop.simps performOptimizationPass_def
      commonSubexpressionElimination_def repeated_example_def default_options_def
      new_Optimizer_def new_OptimizationResult_def record_rewrite_def addOptimization_def
      Let_def)
  moreover have "snd (snd (performOptimizationPass int_host default_options repeated_example s)) = snd s + 1" for s
    by (simp add: performOptimizationPass_def commonSubexpressionElimination_def
        repeated_example_def default_options_def Let_def)
  moreover have "fst (performOptimizationPass int_host default_options repeated_example s) = repeated_example" for s
    by (simp add: performOptimizationPass_def commonSubexpressionElimination_def
        repeated_example_def default_options_def Let_def)
  ultimately show ?thesis
    using optimize_round_bound [OF m, of int_host repeated_example]
    by (simp add: Let_def new_Optimizer_def split_beta)
qed

section \<open>Properties of the common-subexpression detector\<close>

text \<open>
  C8. The detector returns the tree it was given. Of the outcome it only extends the log
  and raises the counter of common subexpressions (and with it the totals); warnings,
  errors and the counters of the other three passes are as before.
\<close>

theorem commonSubexpressionElimination_detects_only:
  "fst (commonSubexpressionElimination node st) = node \<and>
   (let res = fst st; res' = fst (snd (commonSubexpressionElimination node st))
    in prefix (optimizations res) (optimizations res') \<and>
       warnings res' = warnings res \<and> errors res' = errors res \<and>
       statistics res' constantFoldings = statistics res constantFoldings \<and>
       statistics res' algebraicSimplifications = statistics res algebraicSimplifications \<and>
       statistics res' deadCodeEliminations = statistics res deadCodeEliminations \<and>
       statistics res commonSubexpressionEliminations
         \<le> statistics res' commonSubexpressionEliminations)"
  using findCommonExpressions_id [of node "([], st)"]
    findCommonExpressions_step [of "([], st)" node]
  by (simp add: commonSubexpressionElimination_def split_beta detector_step_def Let_def)

end
